theory Spec2Isabelle
  imports Complex_Main
begin

section \<open>Numbers\<close>

text \<open>
  The TypeScript sources declare \<^verbatim>\<open>type Matrix = number[][]\<close>. A \<^verbatim>\<open>number\<close> is an IEEE 754
  binary64 value: a finite number, \<^verbatim>\<open>Infinity\<close>, \<^verbatim>\<open>-Infinity\<close> or \<^verbatim>\<open>NaN\<close>. A finite
  number is modelled by the real it denotes. The two zeros \<^verbatim>\<open>0\<close> and \<^verbatim>\<open>-0\<close> are one value
  here: the sources compare numbers with \<^verbatim>\<open>!==\<close> only, which does not tell them apart, and
  the sign of a zero changes no other result of \<^verbatim>\<open>-\<close>, \<^verbatim>\<open>*\<close> and of \<^verbatim>\<open>/\<close> by a divisor other
  than zero (the only divisor in the sources is a pivot, which has passed the test
  \<^verbatim>\<open>!== 0\<close>).
\<close>

datatype double = Finite real | PosInf | NegInf | NaN

text \<open>Rounding to nearest, ties to even. \<open>expo n x\<close> is the binary exponent of \<open>x > 0\<close>, the
  \<open>e\<close> with \<open>2 ^ e \<le> x < 2 ^ (e + 1)\<close>, found in at most \<open>n\<close> halvings or doublings;
  \<open>quantum x\<close> is the distance between neighbouring binary64 numbers around \<open>x\<close>: 53
  significant bits for a normal number, \<open>2 ^ -1074\<close> below \<open>2 ^ -1022\<close>. A result of
  magnitude \<open>2 ^ 1024\<close> or more overflows to an infinity.\<close>

fun expo :: "nat \<Rightarrow> real \<Rightarrow> int" where
  "expo 0 x = 0"
| "expo (Suc n) x =
     (if 2 \<le> x then expo n (x / 2) + 1
      else if x < 1 then expo n (2 * x) - 1
      else 0)"

definition pow2 :: "int \<Rightarrow> real" where
  "pow2 e = (if 0 \<le> e then 2 ^ nat e else 1 / 2 ^ nat (- e))"

definition quantum :: "real \<Rightarrow> real" where
  "quantum x =
     (if \<bar>x\<bar> < pow2 (- 1022) then pow2 (- 1074) else pow2 (expo 1100 \<bar>x\<bar> - 52))"

definition round_even :: "real \<Rightarrow> int" where
  "round_even t =
     (if t - of_int \<lfloor>t\<rfloor> < 1 / 2 then \<lfloor>t\<rfloor>
      else if 1 / 2 < t - of_int \<lfloor>t\<rfloor> then \<lfloor>t\<rfloor> + 1
      else if even \<lfloor>t\<rfloor> then \<lfloor>t\<rfloor> else \<lfloor>t\<rfloor> + 1)"

definition overflow :: "real \<Rightarrow> double" where
  "overflow x = (if 0 < x then PosInf else NegInf)"

definition nearest :: "real \<Rightarrow> real" where
  "nearest x = of_int (round_even (x / quantum x)) * quantum x"

definition rnd :: "real \<Rightarrow> double" where
  "rnd x =
     (if 2 ^ 1024 \<le> \<bar>x\<bar> \<or> 2 ^ 1024 \<le> \<bar>nearest x\<bar> then overflow x else Finite (nearest x))"

text \<open>The operators of the sources: unary \<^verbatim>\<open>-\<close>, \<^verbatim>\<open>-\<close>, \<^verbatim>\<open>*\<close> and \<^verbatim>\<open>/\<close>. Each rounds the
  exact result of finite operands once; the other cases are those of IEEE 754. A division
  by zero gives the result for the zero \<^verbatim>\<open>0\<close>; the sources never divide by a zero.\<close>

fun dneg :: "double \<Rightarrow> double" where
  "dneg (Finite x) = Finite (- x)"
| "dneg PosInf = NegInf"
| "dneg NegInf = PosInf"
| "dneg NaN = NaN"

fun dsub :: "double \<Rightarrow> double \<Rightarrow> double" where
  "dsub (Finite x) (Finite y) = rnd (x - y)"
| "dsub (Finite x) PosInf = NegInf"
| "dsub (Finite x) NegInf = PosInf"
| "dsub PosInf (Finite y) = PosInf"
| "dsub PosInf NegInf = PosInf"
| "dsub PosInf PosInf = NaN"
| "dsub NegInf (Finite y) = NegInf"
| "dsub NegInf PosInf = NegInf"
| "dsub NegInf NegInf = NaN"
| "dsub NaN b = NaN"
| "dsub a NaN = NaN"

fun dmul :: "double \<Rightarrow> double \<Rightarrow> double" where
  "dmul (Finite x) (Finite y) = rnd (x * y)"
| "dmul (Finite x) PosInf = (if x = 0 then NaN else if 0 < x then PosInf else NegInf)"
| "dmul (Finite x) NegInf = (if x = 0 then NaN else if 0 < x then NegInf else PosInf)"
| "dmul PosInf (Finite y) = (if y = 0 then NaN else if 0 < y then PosInf else NegInf)"
| "dmul NegInf (Finite y) = (if y = 0 then NaN else if 0 < y then NegInf else PosInf)"
| "dmul PosInf PosInf = PosInf"
| "dmul PosInf NegInf = NegInf"
| "dmul NegInf PosInf = NegInf"
| "dmul NegInf NegInf = PosInf"
| "dmul NaN b = NaN"
| "dmul a NaN = NaN"

fun ddiv :: "double \<Rightarrow> double \<Rightarrow> double" where
  "ddiv (Finite x) (Finite y) =
     (if y = 0 then (if x = 0 then NaN else if 0 < x then PosInf else NegInf)
      else rnd (x / y))"
| "ddiv (Finite x) PosInf = Finite 0"
| "ddiv (Finite x) NegInf = Finite 0"
| "ddiv PosInf (Finite y) = (if 0 \<le> y then PosInf else NegInf)"
| "ddiv NegInf (Finite y) = (if 0 \<le> y then NegInf else PosInf)"
| "ddiv PosInf PosInf = NaN"
| "ddiv PosInf NegInf = NaN"
| "ddiv NegInf PosInf = NaN"
| "ddiv NegInf NegInf = NaN"
| "ddiv NaN b = NaN"
| "ddiv a NaN = NaN"

section \<open>Arrays\<close>

text \<open>
  A row is a list of numbers and a matrix a list of rows. The functions that replace rows
  of their argument (\<^verbatim>\<open>matrix[j] = matrix[j].map(...)\<close>) are modelled by passing the matrix
  through.

  Every numeric read \<^verbatim>\<open>matrix[j][k]\<close> is written \<open>matrix ! j ! k\<close>. In JavaScript a read
  outside an array yields \<^verbatim>\<open>undefined\<close>, which is no number; the results below are
  meaningful for rectangular matrices, where every such read is in range. The one read
  whose result the source compares against \<^verbatim>\<open>null\<close> is modelled with \<open>js_read\<close>, which makes
  the missing value explicit.
\<close>

type_synonym matrix = "double list list"

datatype error = TypeError | RangeError | DivisionByZero

text \<open>\<^verbatim>\<open>Array.prototype.findIndex\<close>: the first index whose element satisfies the predicate;
  \<open>None\<close> stands for the result \<^verbatim>\<open>-1\<close>.\<close>

fun findIndex :: "('a \<Rightarrow> bool) \<Rightarrow> 'a list \<Rightarrow> nat option" where
  "findIndex P [] = None"
| "findIndex P (x # xs) = (if P x then Some 0 else map_option Suc (findIndex P xs))"

text \<open>The callback \<^verbatim>\<open>(element) => element !== 0\<close>: true of every number but zero, so also of
  \<^verbatim>\<open>NaN\<close> and of the infinities.\<close>

definition nonzero :: "double \<Rightarrow> bool" where
  "nonzero element = (element \<noteq> Finite 0)"

text \<open>An array read whose result may be \<^verbatim>\<open>undefined\<close> (\<open>None\<close>).\<close>

definition js_read :: "'a list \<Rightarrow> nat \<Rightarrow> 'a option" where
  "js_read xs i = (if i < length xs then Some (xs ! i) else None)"

text \<open>An array write \<^verbatim>\<open>xs[i] = v\<close>: inside the array it replaces the element, at
  \<open>i = length xs\<close> it appends, and further out JavaScript grows the array and leaves holes
  between the old end and \<open>i\<close> (they read as \<^verbatim>\<open>undefined\<close>, here HOL's unspecified
  value). On a rectangular matrix no write of the functions below goes further than
  \<open>length xs\<close>.\<close>

definition js_assign :: "double list \<Rightarrow> nat \<Rightarrow> double \<Rightarrow> double list" where
  "js_assign xs i v =
     (if i < length xs then xs[i := v]
      else if i = length xs then xs @ [v]
      else xs @ replicate (i - length xs) undefined @ [v])"

section \<open>The pipeline of updated.ts\<close>

text \<open>\<^verbatim>\<open>augmentedMatrix(A, b) = A.map((row, i) => [...row, b[i]])\<close>\<close>

definition augmentedMatrix :: "matrix \<Rightarrow> double list \<Rightarrow> matrix" where
  "augmentedMatrix A b = map2 (\<lambda>row i. row @ [b ! i]) A [0..<length A]"

text \<open>The body shared by both elimination loops:
  \<^verbatim>\<open>factor = matrix[j][pivotIndex];
  matrix[j] = matrix[j].map((element, k) => element - factor * matrix[i][k])\<close>\<close>

definition eliminate :: "nat \<Rightarrow> nat \<Rightarrow> matrix \<Rightarrow> nat \<Rightarrow> matrix" where
  "eliminate i pivotIndex matrix j =
     (let factor = matrix ! j ! pivotIndex
      in matrix[j := map (\<lambda>k. dsub (matrix ! j ! k) (dmul factor (matrix ! i ! k)))
                        [0..<length (matrix ! j)]])"

text \<open>\<^verbatim>\<open>rowEchelonForm\<close>. "Make the pivot element 1":
  \<^verbatim>\<open>matrix[i] = matrix[i].map((element) => element / pivot)\<close>; "eliminate below the
  pivot": the loop \<^verbatim>\<open>for (let j = i + 1; j < m; j++)\<close>.\<close>

definition normalise :: "nat \<Rightarrow> double \<Rightarrow> matrix \<Rightarrow> matrix" where
  "normalise i pivot matrix = matrix[i := map (\<lambda>element. ddiv element pivot) (matrix ! i)]"

definition eliminate_below :: "nat \<Rightarrow> nat \<Rightarrow> matrix \<Rightarrow> matrix" where
  "eliminate_below i pivotIndex matrix =
     foldl (eliminate i pivotIndex) matrix [i + 1..<length matrix]"

text \<open>The outer loop runs over the row indices \<open>0, ..., m - 1\<close>, here the list argument
  of \<open>ref_loop\<close>. The test \<^verbatim>\<open>pivot != null\<close> fails exactly when the read yields
  \<^verbatim>\<open>undefined\<close>; its else-branch throws.\<close>

fun ref_loop :: "nat list \<Rightarrow> matrix \<Rightarrow> error + matrix" where
  "ref_loop [] matrix = Inr matrix"
| "ref_loop (i # rest) matrix =
     (case findIndex nonzero (matrix ! i) of
        None \<Rightarrow> ref_loop rest matrix
      | Some pivotIndex \<Rightarrow>
          (case js_read (matrix ! i) pivotIndex of
             Some pivot \<Rightarrow>
               ref_loop rest (eliminate_below i pivotIndex (normalise i pivot matrix))
           | None \<Rightarrow> Inl DivisionByZero))"

text \<open>\<^verbatim>\<open>const n = matrix[0].length\<close> throws a TypeError when the matrix has no row.\<close>

definition rowEchelonForm :: "matrix \<Rightarrow> error + matrix" where
  "rowEchelonForm matrix =
     (if matrix = [] then Inl TypeError else ref_loop [0..<length matrix] matrix)"

text \<open>\<^verbatim>\<open>reducedRowEchelonForm\<close>: the outer loop runs over \<open>m - 1, ..., 0\<close>, the inner one
  ("eliminate above the pivot") over \<open>i - 1, ..., 0\<close>. It reads no \<^verbatim>\<open>matrix[0]\<close> and
  throws nothing.\<close>

definition eliminate_above :: "nat \<Rightarrow> nat \<Rightarrow> matrix \<Rightarrow> matrix" where
  "eliminate_above i pivotIndex matrix = foldl (eliminate i pivotIndex) matrix (rev [0..<i])"

fun rref_loop :: "nat list \<Rightarrow> matrix \<Rightarrow> matrix" where
  "rref_loop [] matrix = matrix"
| "rref_loop (i # rest) matrix =
     (case findIndex nonzero (matrix ! i) of
        None \<Rightarrow> rref_loop rest matrix
      | Some pivotIndex \<Rightarrow> rref_loop rest (eliminate_above i pivotIndex matrix))"

definition reducedRowEchelonForm :: "matrix \<Rightarrow> matrix" where
  "reducedRowEchelonForm matrix = rref_loop (rev [0..<length matrix]) matrix"

text \<open>\<^verbatim>\<open>identifyPivotColumns\<close>: the \<^verbatim>\<open>forEach\<close> pushes the first nonzero index of every
  row that has one; the \<^verbatim>\<open>for\<close> loop then reads \<^verbatim>\<open>augmentedMatrix[0].length\<close> (a TypeError
  on the empty matrix) and collects the indices below \<open>length - 1\<close> that were not pushed.\<close>

record classification =
  pivotColumns :: "nat list"
  nonPivotColumns :: "nat list"

definition pivot_scan :: "matrix \<Rightarrow> nat list" where
  "pivot_scan augmented =
     foldl (\<lambda>pivotCols row.
              case findIndex nonzero row of
                Some pivotIndex \<Rightarrow> pivotCols @ [pivotIndex]
              | None \<Rightarrow> pivotCols) [] augmented"

definition identifyPivotColumns :: "matrix \<Rightarrow> error + classification" where
  "identifyPivotColumns augmented =
     (let pivotCols = pivot_scan augmented
      in if augmented = [] then Inl TypeError
         else Inr \<lparr>pivotColumns = pivotCols,
                   nonPivotColumns =
                     filter (\<lambda>j. j \<notin> set pivotCols) [0..<length (augmented ! 0) - 1]\<rparr>)"

text \<open>\<^verbatim>\<open>findNullSpaceSolution\<close>: \<^verbatim>\<open>Array.from({length: numCols - pivotColumns.length}, ...)\<close>
  builds one vector per \<open>index\<close>; a negative length counts as \<open>0\<close>, which is what the
  subtraction on \<open>nat\<close> gives.\<close>

definition nullSpaceVector :: "matrix \<Rightarrow> nat list \<Rightarrow> nat \<Rightarrow> double list" where
  "nullSpaceVector matrix pivotCols index =
     (let numCols = length (matrix ! 0)
      in foldl (\<lambda>vec (col, rowIndex).
                  js_assign vec col (dneg (matrix ! rowIndex ! (length pivotCols + index))))
           (js_assign (replicate (numCols - 1) (Finite 0)) (length pivotCols + index) (Finite 1))
           (zip pivotCols [0..<length pivotCols]))"

definition findNullSpaceSolution :: "matrix \<Rightarrow> error + double list list" where
  "findNullSpaceSolution matrix =
     (if matrix = [] then Inl TypeError
      else case identifyPivotColumns matrix of
             Inl e \<Rightarrow> Inl e
           | Inr cls \<Rightarrow>
               Inr (map (nullSpaceVector matrix (pivotColumns cls))
                      [0..<length (matrix ! 0) - length (pivotColumns cls)]))"

text \<open>\<^verbatim>\<open>findParticularSolution\<close>: \<^verbatim>\<open>Array(numCols - 1)\<close> throws a RangeError when the rows
  are empty. \<open>particularWrites\<close> lists the assignments
  \<^verbatim>\<open>particularSolution[pivotColumn] = matrix[row][numCols - 1]\<close> in the order the loop
  performs them.\<close>

definition particularWrites :: "matrix \<Rightarrow> (nat \<times> double) list" where
  "particularWrites matrix =
     concat (map (\<lambda>row. case findIndex nonzero row of
                          Some pivotColumn \<Rightarrow> [(pivotColumn, row ! (length (matrix ! 0) - 1))]
                        | None \<Rightarrow> []) matrix)"

definition findParticularSolution :: "matrix \<Rightarrow> error + double list" where
  "findParticularSolution matrix =
     (if matrix = [] then Inl TypeError
      else if length (matrix ! 0) = 0 then Inl RangeError
      else Inr (foldl (\<lambda>particularSolution (pivotColumn, v).
                         js_assign particularSolution pivotColumn v)
                  (replicate (length (matrix ! 0) - 1) (Finite 0)) (particularWrites matrix)))"

section \<open>Vocabulary of the properties\<close>

text \<open>A matrix is rectangular with \<open>n\<close> columns.\<close>

definition rect :: "nat \<Rightarrow> matrix \<Rightarrow> bool" where
  "rect n matrix = list_all (\<lambda>row. length row = n) matrix"

text \<open>\<open>representable x\<close>: the real \<open>x\<close> is a binary64 number, that is, rounding leaves it as
  it is. \<open>is_number v\<close>: \<open>v\<close> is a value of the type \<^verbatim>\<open>number\<close>. \<open>is_finite v\<close>: it is neither
  \<^verbatim>\<open>NaN\<close> nor an infinity.\<close>

definition representable :: "real \<Rightarrow> bool" where
  "representable x = (rnd x = Finite x)"

definition is_number :: "double \<Rightarrow> bool" where
  "is_number v = (case v of Finite x \<Rightarrow> representable x | _ \<Rightarrow> True)"

definition is_finite :: "double \<Rightarrow> bool" where
  "is_finite v = (case v of Finite x \<Rightarrow> True | _ \<Rightarrow> False)"

definition numbers :: "matrix \<Rightarrow> bool" where
  "numbers M = list_all (list_all is_number) M"

definition finite_matrix :: "matrix \<Rightarrow> bool" where
  "finite_matrix M = list_all (list_all is_finite) M"

text \<open>The real that a finite number denotes (\<open>0\<close> for the others; it is used for finite
  numbers only).\<close>

fun val :: "double \<Rightarrow> real" where
  "val (Finite x) = x"
| "val v = 0"

text \<open>The exact product of a real matrix and a real vector, for the equations that a
  solution is to satisfy.\<close>

definition dot :: "real list \<Rightarrow> real list \<Rightarrow> real" where
  "dot u v = sum_list (map2 (*) u v)"

definition mat_vec :: "real list list \<Rightarrow> real list \<Rightarrow> real list" where
  "mat_vec A v = map (\<lambda>row. dot row v) A"

text \<open>The rows above \<open>t\<close> are in echelon shape: the first nonzero entry of each is \<open>1\<close> and
  the rows below it are \<open>0\<close> in its column.\<close>

definition echelon_upto :: "nat \<Rightarrow> matrix \<Rightarrow> bool" where
  "echelon_upto t M =
     (\<forall>i<t. \<forall>c. findIndex nonzero (M ! i) = Some c \<longrightarrow>
        M ! i ! c = Finite 1 \<and> (\<forall>j<length M. i < j \<longrightarrow> M ! j ! c = Finite 0))"

text \<open>Reduced shape: the column of each row's first nonzero entry holds \<open>1\<close> in that row
  and \<open>0\<close> in every other row.\<close>

definition reduced :: "matrix \<Rightarrow> bool" where
  "reduced M =
     (\<forall>i<length M. \<forall>c. findIndex nonzero (M ! i) = Some c \<longrightarrow>
        M ! i ! c = Finite 1 \<and> (\<forall>j<length M. j \<noteq> i \<longrightarrow> M ! j ! c = Finite 0))"

text \<open>From row \<open>t\<close> on, the column of each row's first nonzero entry is \<open>0\<close> in the rows
  above that row.\<close>

definition cleared_from :: "nat \<Rightarrow> matrix \<Rightarrow> bool" where
  "cleared_from t M =
     (\<forall>i<length M. t \<le> i \<longrightarrow> (\<forall>c. findIndex nonzero (M ! i) = Some c \<longrightarrow>
        (\<forall>j<i. M ! j ! c = Finite 0)))"

section \<open>Rounding\<close>

lemma pow2_powi: "pow2 e = 2 powi e"
  by (simp add: pow2_def power_int_def inverse_eq_divide power_one_over)

lemma pow2_pos [simp]: "0 < pow2 e"
  by (simp add: pow2_powi)

lemma pow2_add: "pow2 (a + b) = pow2 a * pow2 b"
  by (simp add: pow2_powi power_int_add)

lemma pow2_0 [simp]: "pow2 0 = 1"
  by (simp add: pow2_def)

lemma pow2_1 [simp]: "pow2 1 = 2"
  by (simp add: pow2_def)

lemma pow2_Suc: "pow2 (e + 1) = 2 * pow2 e"
  by (simp add: pow2_add)

lemma pow2_pred: "pow2 (e - 1) = pow2 e / 2"
  using pow2_Suc [of "e - 1"] by simp

lemma pow2_mono: "a \<le> b \<Longrightarrow> pow2 a \<le> pow2 b"
  by (simp add: pow2_powi power_int_increasing)

lemma pow2_strict_mono: "a < b \<Longrightarrow> pow2 a < pow2 b"
  by (simp add: pow2_powi power_int_strict_increasing)

lemma pow2_nat: "pow2 (int n) = 2 ^ n"
  by (simp add: pow2_def)

lemma expo_bounds:
  assumes "pow2 (- int n) \<le> x" and "x < pow2 (int n + 1)"
  shows "pow2 (expo n x) \<le> x \<and> x < pow2 (expo n x + 1)"
  using assms
proof (induction n arbitrary: x)
  case 0
  then show ?case by simp
next
  case (Suc n)
  show ?case
  proof (cases "2 \<le> x")
    case True
    have "pow2 (- int n) \<le> 1" using pow2_mono [of "- int n" 0] by simp
    then have a: "pow2 (- int n) \<le> x / 2" using True by simp
    have "x < 2 * pow2 (int n + 1)" using Suc.prems(2) pow2_Suc [of "int n + 1"] by (simp add: add.commute)
    then have b: "x / 2 < pow2 (int n + 1)" by simp
    define e where "e = expo n (x / 2)"
    from Suc.IH [OF a b] have "pow2 e \<le> x / 2" "x / 2 < pow2 (e + 1)" by (simp_all add: e_def)
    moreover have "pow2 (e + 1) = 2 * pow2 e" "pow2 (e + 1 + 1) = 2 * pow2 (e + 1)"
      by (rule pow2_Suc)+
    ultimately have "pow2 (e + 1) \<le> x \<and> x < pow2 (e + 1 + 1)" by simp
    then show ?thesis using True by (simp add: e_def)
  next
    case False
    show ?thesis
    proof (cases "x < 1")
      case True
      have "pow2 (- int n) = 2 * pow2 (- int (Suc n))"
        using pow2_Suc [of "- int (Suc n)"] by simp
      then have a: "pow2 (- int n) \<le> 2 * x" using Suc.prems(1) by simp
      have "(2::real) \<le> pow2 (int n + 1)" using pow2_mono [of 1 "int n + 1"] by simp
      then have b: "2 * x < pow2 (int n + 1)" using True by simp
      define e where "e = expo n (2 * x)"
      from Suc.IH [OF a b] have "pow2 e \<le> 2 * x" "2 * x < pow2 (e + 1)" by (simp_all add: e_def)
      moreover have "pow2 (e - 1) = pow2 e / 2" "pow2 (e + 1) = 2 * pow2 e"
        by (rule pow2_pred, rule pow2_Suc)
      ultimately have "pow2 (e - 1) \<le> x \<and> x < pow2 (e - 1 + 1)" by simp
      then show ?thesis using True \<open>\<not> 2 \<le> x\<close> by (simp add: e_def)
    next
      case False
      then show ?thesis using \<open>\<not> 2 \<le> x\<close> by simp
    qed
  qed
qed

lemma expo_unique:
  assumes "pow2 e \<le> x" and "x < pow2 (e + 1)" and "pow2 e' \<le> x" and "x < pow2 (e' + 1)"
  shows "e = e'"
proof (rule ccontr)
  assume "e \<noteq> e'"
  then consider "e + 1 \<le> e'" | "e' + 1 \<le> e" by linarith
  then show False
  proof cases
    case 1
    then have "pow2 (e + 1) \<le> pow2 e'" by (rule pow2_mono)
    then show False using assms by simp
  next
    case 2
    then have "pow2 (e' + 1) \<le> pow2 e" by (rule pow2_mono)
    then show False using assms by simp
  qed
qed

lemma round_even_cases: "round_even t = \<lfloor>t\<rfloor> \<or> round_even t = \<lfloor>t\<rfloor> + 1"
  by (simp add: round_even_def)

lemma round_even_of_int [simp]: "round_even (of_int k) = k"
  by (simp add: round_even_def)

lemma round_even_ge:
  assumes "of_int a \<le> t"
  shows "a \<le> round_even t"
proof -
  have "a \<le> \<lfloor>t\<rfloor>" using assms by (simp add: le_floor_iff)
  then show ?thesis using round_even_cases [of t] by auto
qed

lemma round_even_le:
  assumes "t \<le> of_int b"
  shows "round_even t \<le> b"
proof (cases "t = of_int b")
  case True
  then show ?thesis by simp
next
  case False
  then have "t < of_int b" using assms by simp
  then have "\<lfloor>t\<rfloor> < b" by (simp add: floor_less_iff)
  then show ?thesis using round_even_cases [of t] by auto
qed

lemma round_even_abs_le:
  assumes "\<bar>t\<bar> \<le> of_int b"
  shows "\<bar>round_even t\<bar> \<le> b"
proof -
  have "of_int (- b) \<le> t" "t \<le> of_int b" using assms by auto
  then have "- b \<le> round_even t" "round_even t \<le> b"
    by (auto intro: round_even_ge round_even_le)
  then show ?thesis by simp
qed

lemma pow2_neq_0 [simp]: "pow2 e \<noteq> 0"
  by (metis less_irrefl pow2_pos)

lemma abs_pow2 [simp]: "\<bar>pow2 e\<bar> = pow2 e"
  by (simp add: less_imp_le)

lemma pow2_1024: "pow2 1024 = 2 ^ 1024"
  by (simp add: pow2_def)

lemma pow2_53: "pow2 53 = 2 ^ 53"
  by (simp add: pow2_def)

lemma pow2_int: "0 \<le> e \<Longrightarrow> pow2 e = of_int (2 ^ nat e)"
  by (simp add: pow2_def)

lemma pow2_div: "pow2 a / pow2 b = pow2 (a - b)"
  using pow2_add [of "a - b" b] by simp

lemma quantum_cases:
  assumes "\<bar>x\<bar> < 2 ^ 1024"
  obtains (subnormal) "\<bar>x\<bar> < pow2 (- 1022)" and "quantum x = pow2 (- 1074)"
  | (normal) e where "- 1022 \<le> e" and "e \<le> 1023" and "pow2 e \<le> \<bar>x\<bar>"
      and "\<bar>x\<bar> < pow2 (e + 1)" and "quantum x = pow2 (e - 52)"
proof (cases "\<bar>x\<bar> < pow2 (- 1022)")
  case True
  then show ?thesis using subnormal by (simp add: quantum_def)
next
  case False
  define e where "e = expo 1100 \<bar>x\<bar>"
  have "pow2 (- int 1100) \<le> pow2 (- 1022)" by (rule pow2_mono) simp
  then have a: "pow2 (- int 1100) \<le> \<bar>x\<bar>" using False by simp
  have "pow2 1024 \<le> pow2 (int 1100 + 1)" by (rule pow2_mono) simp
  then have b: "\<bar>x\<bar> < pow2 (int 1100 + 1)" using assms by (simp add: pow2_1024)
  from expo_bounds [OF a b] have bounds: "pow2 e \<le> \<bar>x\<bar>" "\<bar>x\<bar> < pow2 (e + 1)"
    by (simp_all add: e_def)
  have lo: "- 1022 \<le> e"
  proof (rule ccontr)
    assume "\<not> - 1022 \<le> e"
    then have "pow2 (e + 1) \<le> pow2 (- 1022)" by (intro pow2_mono) simp
    then show False using bounds(2) False by simp
  qed
  have hi: "e \<le> 1023"
  proof (rule ccontr)
    assume "\<not> e \<le> 1023"
    then have "pow2 1024 \<le> pow2 e" by (intro pow2_mono) simp
    then show False using bounds(1) assms by (simp add: pow2_1024)
  qed
  have "quantum x = pow2 (e - 52)" using False by (simp add: quantum_def e_def)
  then show ?thesis using normal lo hi bounds by blast
qed

lemma nearest_exact:
  assumes "x / quantum x = of_int j"
  shows "nearest x = x"
proof -
  have "quantum x \<noteq> 0" by (simp add: quantum_def)
  then have "x = of_int j * quantum x" using assms by (simp add: field_simps)
  then show ?thesis using assms by (simp add: nearest_def)
qed

lemma rnd_repr:
  assumes x: "x = of_int m * pow2 k" and m: "\<bar>m\<bar> \<le> 2 ^ 53" and k: "- 1074 \<le> k"
    and bound: "\<bar>x\<bar> < 2 ^ 1024"
  shows "rnd x = Finite x"
proof -
  have scaled: "\<exists>j. x / pow2 a = of_int j" if "a \<le> k" for a
  proof -
    have "x / pow2 a = of_int m * (pow2 k / pow2 a)" by (simp add: x)
    also have "pow2 k / pow2 a = pow2 (k - a)" by (rule pow2_div)
    also have "pow2 (k - a) = of_int (2 ^ nat (k - a))" using that by (intro pow2_int) simp
    finally have "x / pow2 a = of_int (m * 2 ^ nat (k - a))" by simp
    then show ?thesis by blast
  qed
  have "\<exists>j. x / quantum x = of_int j"
  using bound proof (cases rule: quantum_cases)
    case subnormal
    then show ?thesis using scaled [of "- 1074"] k by auto
  next
    case (normal e)
    have absx: "\<bar>x\<bar> = of_int \<bar>m\<bar> * pow2 k" by (simp add: x abs_mult)
    show ?thesis
    proof (cases "\<bar>m\<bar> = 2 ^ 53")
      case True
      then have "\<bar>x\<bar> = pow2 (53 + k)" using absx by (simp add: pow2_add pow2_53)
      then have "pow2 (53 + k) \<le> \<bar>x\<bar>" "\<bar>x\<bar> < pow2 (53 + k + 1)"
        using pow2_strict_mono [of "53 + k" "53 + k + 1"] by simp_all
      then have e: "e = 53 + k" using expo_unique normal(3,4) by blast
      have "even m" using True by (metis abs_numeral dvd_abs_iff even_numeral even_power zero_less_numeral)
      then obtain h where h: "m = 2 * h" by (auto elim: evenE)
      have "quantum x = pow2 (k + 1)" using normal(5) e by (simp add: add.commute)
      then have "x / quantum x = of_int h" by (simp add: x h pow2_Suc)
      then show ?thesis by blast
    next
      case False
      then have "\<bar>m\<bar> < 2 ^ 53" using m by simp
      then have "of_int \<bar>m\<bar> < (2::real) ^ 53" by (metis of_int_less_numeral_power_cancel_iff)
      then have "\<bar>x\<bar> < pow2 (53 + k)" using absx by (simp add: pow2_add pow2_53)
      then have "pow2 e < pow2 (53 + k)" using normal(3) by simp
      then have "e < 53 + k"
        by (metis not_less pow2_mono leD)
      then have "e - 52 \<le> k" by simp
      then show ?thesis using scaled [of "e - 52"] normal(5) by auto
    qed
  qed
  then obtain j where "x / quantum x = of_int j" by blast
  then have "nearest x = x" by (rule nearest_exact)
  then show ?thesis using bound by (simp add: rnd_def)
qed

lemma quantum_pow2:
  assumes "\<bar>x\<bar> < 2 ^ 1024"
  shows "\<exists>k. - 1074 \<le> k \<and> quantum x = pow2 k \<and> \<bar>x / quantum x\<bar> \<le> 2 ^ 53"
using assms proof (cases rule: quantum_cases)
  case subnormal
  have "\<bar>x\<bar> / pow2 (- 1074) < pow2 (- 1022) / pow2 (- 1074)"
    using subnormal(1) by (simp add: divide_strict_right_mono)
  also have "\<dots> = pow2 52" by (simp add: pow2_div)
  also have "\<dots> = 2 ^ 52" by (simp add: pow2_def)
  finally have "\<bar>x / quantum x\<bar> \<le> 2 ^ 53" using subnormal(2) by (simp add: abs_divide)
  then show ?thesis using subnormal(2) by auto
next
  case (normal e)
  have "\<bar>x\<bar> / pow2 (e - 52) < pow2 (e + 1) / pow2 (e - 52)"
    using normal(4) by (simp add: divide_strict_right_mono)
  also have "\<dots> = pow2 53" by (simp add: pow2_div)
  also have "\<dots> = 2 ^ 53" by (simp add: pow2_def)
  finally have "\<bar>x / quantum x\<bar> \<le> 2 ^ 53" using normal(5) by (simp add: abs_divide)
  moreover have "- 1074 \<le> e - 52" using normal(1) by simp
  ultimately show ?thesis using normal(5) by blast
qed

lemma rnd_cases:
  obtains (inf) "rnd x = PosInf \<or> rnd x = NegInf"
  | (fin) y where "rnd x = Finite y" and "rnd y = Finite y"
proof (cases "2 ^ 1024 \<le> \<bar>x\<bar> \<or> 2 ^ 1024 \<le> \<bar>nearest x\<bar>")
  case True
  then show ?thesis using inf by (simp add: rnd_def overflow_def)
next
  case False
  then have b: "\<bar>x\<bar> < 2 ^ 1024" "\<bar>nearest x\<bar> < 2 ^ 1024" by simp_all
  from quantum_pow2 [OF b(1)] obtain k where k: "- 1074 \<le> k" "quantum x = pow2 k"
    "\<bar>x / quantum x\<bar> \<le> 2 ^ 53" by blast
  have "\<bar>x / quantum x\<bar> \<le> of_int (2 ^ 53)" using k(3) by simp
  then have "\<bar>round_even (x / quantum x)\<bar> \<le> 2 ^ 53" by (rule round_even_abs_le)
  moreover have "nearest x = of_int (round_even (x / quantum x)) * pow2 k"
    by (simp add: nearest_def k(2))
  ultimately have "rnd (nearest x) = Finite (nearest x)" using k(1) b(2) by (intro rnd_repr)
  moreover have "rnd x = Finite (nearest x)" using False by (simp add: rnd_def)
  ultimately show ?thesis using fin by blast
qed

lemma is_number_rnd [simp]: "is_number (rnd x)"
  by (cases x rule: rnd_cases) (auto simp: is_number_def representable_def)

lemma rnd_0 [simp]: "rnd 0 = Finite 0"
  using rnd_repr [of 0 0 0] by simp

lemma rnd_1 [simp]: "rnd 1 = Finite 1"
  using rnd_repr [of 1 1 0] by simp

lemma rnd_of_int: "\<bar>m\<bar> \<le> 2 ^ 53 \<Longrightarrow> rnd (of_int m) = Finite (of_int m)"
proof -
  assume m: "\<bar>m\<bar> \<le> 2 ^ 53"
  then have "\<bar>real_of_int m\<bar> \<le> 2 ^ 53"
    by (metis of_int_abs of_int_le_numeral_power_cancel_iff)
  then have "\<bar>real_of_int m\<bar> < 2 ^ 1024"
    using power_strict_increasing [of 53 1024 "2::real"] by linarith
  then show ?thesis using rnd_repr [of "of_int m" m 0] m by simp
qed

section \<open>Arithmetic on numbers\<close>

lemma is_number_simps [simp]:
  "is_number (Finite x) = representable x" "is_number PosInf" "is_number NegInf" "is_number NaN"
  by (simp_all add: is_number_def)

lemma is_finite_simps [simp]:
  "is_finite (Finite x)" "\<not> is_finite PosInf" "\<not> is_finite NegInf" "\<not> is_finite NaN"
  by (simp_all add: is_finite_def)

lemma is_finiteE: "is_finite v \<Longrightarrow> (\<And>x. v = Finite x \<Longrightarrow> P) \<Longrightarrow> P"
  by (cases v) simp_all

lemma representable_0 [simp]: "representable 0"
  by (simp add: representable_def)

lemma representable_1 [simp]: "representable 1"
  by (simp add: representable_def)

lemma representable_rnd: "rnd x = Finite y \<Longrightarrow> representable y"
  using is_number_rnd [of x] by simp

text \<open>Every result of an operator is a number.\<close>

lemma is_number_dsub [simp]: "is_number (dsub a b)"
  by (cases a; cases b) simp_all

lemma is_number_dmul [simp]: "is_number (dmul a b)"
  by (cases a; cases b) simp_all

lemma is_number_ddiv [simp]: "is_number (ddiv a b)"
  by (cases a; cases b) simp_all

text \<open>An infinity or a \<^verbatim>\<open>NaN\<close> in a row stays one.\<close>

lemma dsub_not_finite: "\<not> is_finite a \<Longrightarrow> \<not> is_finite (dsub a b)"
  by (cases a; cases b) simp_all

lemma ddiv_not_finite: "\<not> is_finite a \<Longrightarrow> is_finite p \<Longrightarrow> \<not> is_finite (ddiv a p)"
  by (cases a; cases p) simp_all

lemma ddiv_self_not_finite: "\<not> is_finite p \<Longrightarrow> \<not> is_finite (ddiv p p)"
  by (cases p) simp_all

text \<open>The operations that the elimination relies on are exact.\<close>

lemma ddiv_self: "is_finite p \<Longrightarrow> p \<noteq> Finite 0 \<Longrightarrow> ddiv p p = Finite 1"
  by (cases p) simp_all

lemma ddiv_zero: "is_finite p \<Longrightarrow> p \<noteq> Finite 0 \<Longrightarrow> ddiv (Finite 0) p = Finite 0"
  by (cases p) simp_all

lemma dmul_one: "is_number a \<Longrightarrow> dmul a (Finite 1) = a"
  by (cases a) (simp_all add: representable_def)

lemma dmul_zero_right: "is_finite a \<Longrightarrow> dmul a (Finite 0) = Finite 0"
  by (cases a) simp_all

lemma dmul_zero_left: "is_finite b \<Longrightarrow> dmul (Finite 0) b = Finite 0"
  by (cases b) simp_all

lemma dsub_self: "is_finite a \<Longrightarrow> dsub a a = Finite 0"
  by (cases a) simp_all

lemma dsub_zero: "is_number a \<Longrightarrow> dsub a (Finite 0) = a"
  by (cases a) (simp_all add: representable_def)

text \<open>Matrices of numbers and of finite numbers, entry by entry.\<close>

lemma numbers_nth: "numbers M \<Longrightarrow> r < length M \<Longrightarrow> k < length (M ! r) \<Longrightarrow> is_number (M ! r ! k)"
  by (simp add: numbers_def list_all_length)

lemma numbersI:
  "(\<And>r k. r < length M \<Longrightarrow> k < length (M ! r) \<Longrightarrow> is_number (M ! r ! k)) \<Longrightarrow> numbers M"
  by (simp add: numbers_def list_all_length)

lemma finite_matrix_nth:
  "finite_matrix M \<Longrightarrow> r < length M \<Longrightarrow> k < length (M ! r) \<Longrightarrow> is_finite (M ! r ! k)"
  by (simp add: finite_matrix_def list_all_length)

lemma finite_matrixI:
  "(\<And>r k. r < length M \<Longrightarrow> k < length (M ! r) \<Longrightarrow> is_finite (M ! r ! k)) \<Longrightarrow> finite_matrix M"
  by (simp add: finite_matrix_def list_all_length)

section \<open>Array scans and the elimination steps\<close>

text \<open>What \<open>findIndex\<close> returns, and the rows of a matrix after \<open>normalise\<close>,
  \<open>eliminate_below\<close> and \<open>eliminate_above\<close>: the inner loops touch each row once, so the
  result is described row by row.\<close>

lemma findIndex_Some_iff:
  "findIndex P xs = Some k \<longleftrightarrow> k < length xs \<and> P (xs ! k) \<and> (\<forall>j<k. \<not> P (xs ! j))"
proof (induction xs arbitrary: k)
  case Nil
  then show ?case by simp
next
  case (Cons x xs)
  show ?case
  proof (cases k)
    case 0
    then show ?thesis by (auto split: if_splits)
  next
    case (Suc k')
    have "(\<forall>j<Suc k'. \<not> P ((x # xs) ! j)) \<longleftrightarrow> \<not> P x \<and> (\<forall>j<k'. \<not> P (xs ! j))"
      by (auto simp: less_Suc_eq_0_disj)
    then show ?thesis using Suc Cons.IH [of k'] by auto
  qed
qed

lemma findIndex_None_iff:
  "findIndex P xs = None \<longleftrightarrow> (\<forall>j<length xs. \<not> P (xs ! j))"
  by (induction xs) (auto simp: less_Suc_eq_0_disj)

lemma ref_loop_not_division_error: "ref_loop idxs matrix \<noteq> Inl DivisionByZero"
proof (induction idxs arbitrary: matrix)
  case Nil
  then show ?case by simp
next
  case (Cons i rest)
  show ?case
  proof (cases "findIndex nonzero (matrix ! i)")
    case None
    then show ?thesis using Cons.IH by simp
  next
    case (Some c)
    then have "c < length (matrix ! i)" by (simp add: findIndex_Some_iff)
    then show ?thesis using Some Cons.IH by (simp add: js_read_def)
  qed
qed

lemma eliminate_length [simp]: "length (eliminate i c M j) = length M"
  by (simp add: eliminate_def Let_def)

lemma eliminate_nth:
  "eliminate i c M j ! r =
     (if r = j \<and> j < length M
      then map (\<lambda>k. dsub (M ! j ! k) (dmul (M ! j ! c) (M ! i ! k))) [0..<length (M ! j)]
      else M ! r)"
  by (auto simp: eliminate_def Let_def list_update_beyond)

lemma fold_eliminate_length [simp]: "length (foldl (eliminate i c) M js) = length M"
  by (induction js arbitrary: M) simp_all

lemma fold_eliminate_nth:
  assumes "distinct js" and "i \<notin> set js" and "\<forall>j\<in>set js. j < length M"
  shows "foldl (eliminate i c) M js ! r =
           (if r \<in> set js
            then map (\<lambda>k. dsub (M ! r ! k) (dmul (M ! r ! c) (M ! i ! k))) [0..<length (M ! r)]
            else M ! r)"
  using assms
proof (induction js arbitrary: M)
  case Nil
  then show ?case by simp
next
  case (Cons j js)
  let ?M' = "eliminate i c M j"
  have other: "?M' ! q = M ! q" if "q \<noteq> j" for q
    using that by (simp add: eliminate_nth)
  have step: "foldl (eliminate i c) ?M' js ! r =
           (if r \<in> set js
            then map (\<lambda>k. dsub (?M' ! r ! k) (dmul (?M' ! r ! c) (?M' ! i ! k))) [0..<length (?M' ! r)]
            else ?M' ! r)"
    using Cons.prems by (intro Cons.IH) auto
  have ij: "i \<noteq> j" and jjs: "j \<notin> set js" and jlen: "j < length M"
    using Cons.prems by auto
  show ?case
  proof (cases "r = j")
    case True
    then show ?thesis using step jjs jlen by (simp add: eliminate_nth)
  next
    case False
    then show ?thesis using step ij by (simp add: other)
  qed
qed

lemma rect_nth: "rect n M \<Longrightarrow> r < length M \<Longrightarrow> length (M ! r) = n"
  by (simp add: rect_def list_all_length)

lemma rectI: "(\<And>r. r < length M \<Longrightarrow> length (M ! r) = n) \<Longrightarrow> rect n M"
  by (simp add: rect_def list_all_length)

lemma normalise_length [simp]: "length (normalise i p M) = length M"
  by (simp add: normalise_def)

lemma eliminate_below_length [simp]: "length (eliminate_below i c M) = length M"
  by (simp add: eliminate_below_def)

lemma eliminate_above_length [simp]: "length (eliminate_above i c M) = length M"
  by (simp add: eliminate_above_def)

lemma normalise_nth:
  "i < length M \<Longrightarrow> normalise i p M ! r = (if r = i then map (\<lambda>e. ddiv e p) (M ! i) else M ! r)"
  by (simp add: normalise_def)

lemma eliminate_below_nth:
  "r < length M \<Longrightarrow> eliminate_below i c M ! r =
     (if i < r then map (\<lambda>k. dsub (M ! r ! k) (dmul (M ! r ! c) (M ! i ! k))) [0..<length (M ! r)]
      else M ! r)"
  unfolding eliminate_below_def
  by (subst fold_eliminate_nth) auto

lemma eliminate_above_nth:
  "i < length M \<Longrightarrow> eliminate_above i c M ! r =
     (if r < i then map (\<lambda>k. dsub (M ! r ! k) (dmul (M ! r ! c) (M ! i ! k))) [0..<length (M ! r)]
      else M ! r)"
  unfolding eliminate_above_def
  by (subst fold_eliminate_nth) auto

lemma rect_normalise: "rect n M \<Longrightarrow> rect n (normalise i p M)"
  by (cases "i < length M") (auto intro!: rectI simp: rect_nth normalise_def nth_list_update)

lemma rect_eliminate_below: "rect n M \<Longrightarrow> rect n (eliminate_below i c M)"
  by (auto intro!: rectI simp: eliminate_below_nth rect_nth)

lemma rect_eliminate_above: "rect n M \<Longrightarrow> i < length M \<Longrightarrow> rect n (eliminate_above i c M)"
  by (auto intro!: rectI simp: eliminate_above_nth rect_nth)

section \<open>Rows of numbers through a step\<close>

lemma lead_SomeD:
  "findIndex nonzero row = Some c \<Longrightarrow>
   c < length row \<and> row ! c \<noteq> Finite 0 \<and> (\<forall>k<c. row ! k = Finite 0)"
  by (simp add: findIndex_Some_iff nonzero_def)

lemma lead_SomeI:
  "c < length row \<Longrightarrow> row ! c \<noteq> Finite 0 \<Longrightarrow> (\<And>k. k < c \<Longrightarrow> row ! k = Finite 0) \<Longrightarrow>
   findIndex nonzero row = Some c"
  by (simp add: findIndex_Some_iff nonzero_def)

lemma lead_None_iff:
  "findIndex nonzero row = None \<longleftrightarrow> (\<forall>k<length row. row ! k = Finite 0)"
  by (simp add: findIndex_None_iff nonzero_def)

lemma ref_step_entry:
  assumes "rect n M" and "i < length M" and "r < length M" and "k < n"
  shows "eliminate_below i c (normalise i p M) ! r ! k =
     (if r < i then M ! r ! k
      else if r = i then ddiv (M ! i ! k) p
      else dsub (M ! r ! k) (dmul (M ! r ! c) (ddiv (M ! i ! k) p)))"
  using assms by (simp add: eliminate_below_nth normalise_nth rect_nth)

lemma ref_step_rect:
  "rect n M \<Longrightarrow> rect n (eliminate_below i c (normalise i p M))"
  by (simp add: rect_eliminate_below rect_normalise)

lemma rref_step_entry:
  assumes "rect n M" and "i < length M" and "r < length M" and "k < n"
  shows "eliminate_above i c M ! r ! k =
     (if r < i then dsub (M ! r ! k) (dmul (M ! r ! c) (M ! i ! k)) else M ! r ! k)"
  using assms by (simp add: eliminate_above_nth rect_nth)

lemma row_eqI:
  assumes "length u = n" and "length v = n" and "\<And>k. k < n \<Longrightarrow> u ! k = v ! k"
  shows "u = v"
  using assms by (simp add: nth_equalityI)

text \<open>A step yields numbers, and it yields an infinity or a \<^verbatim>\<open>NaN\<close> in every row that held
  one: a matrix of finite numbers after the step was one before it.\<close>

lemma ref_step_numbers:
  assumes rect: "rect n M" and i: "i < length M" and num: "numbers M"
  shows "numbers (eliminate_below i c (normalise i p M))"
proof (rule numbersI)
  fix r k
  assume r: "r < length (eliminate_below i c (normalise i p M))"
    and k: "k < length (eliminate_below i c (normalise i p M) ! r)"
  have r': "r < length M" using r by simp
  have "length (eliminate_below i c (normalise i p M) ! r) = n"
    using ref_step_rect [OF rect] r by (rule rect_nth)
  then have k': "k < n" using k by simp
  have "is_number (M ! r ! k)" using num r' k' rect by (simp add: numbers_nth rect_nth)
  then show "is_number (eliminate_below i c (normalise i p M) ! r ! k)"
    using ref_step_entry [OF rect i r' k'] by simp
qed

lemma rref_step_numbers:
  assumes rect: "rect n M" and i: "i < length M" and num: "numbers M"
  shows "numbers (eliminate_above i c M)"
proof (rule numbersI)
  fix r k
  assume r: "r < length (eliminate_above i c M)"
    and k: "k < length (eliminate_above i c M ! r)"
  have r': "r < length M" using r by simp
  have "length (eliminate_above i c M ! r) = n"
    using rect_eliminate_above [OF rect i] r by (rule rect_nth)
  then have k': "k < n" using k by simp
  have "is_number (M ! r ! k)" using num r' k' rect by (simp add: numbers_nth rect_nth)
  then show "is_number (eliminate_above i c M ! r ! k)"
    using rref_step_entry [OF rect i r' k'] by simp
qed

lemma ref_step_finite:
  assumes rect: "rect n M" and i: "i < length M"
    and lead: "findIndex nonzero (M ! i) = Some c"
    and fin: "finite_matrix (eliminate_below i c (normalise i (M ! i ! c) M))"
  shows "finite_matrix M"
proof (rule finite_matrixI)
  fix r k
  assume r: "r < length M" and k: "k < length (M ! r)"
  define M' where "M' = eliminate_below i c (normalise i (M ! i ! c) M)"
  have kn: "k < n" using k rect r by (simp add: rect_nth)
  have cn: "c < n" using lead_SomeD [OF lead] rect i by (simp add: rect_nth)
  have "length (M' ! r) = n"
    unfolding M'_def using ref_step_rect [OF rect] by (rule rect_nth) (use r in simp)
  then have fin': "is_finite (M' ! r ! q)" if "q < n" for q
    using fin r that by (simp add: M'_def finite_matrix_nth)
  have entry: "M' ! r ! q =
     (if r < i then M ! r ! q
      else if r = i then ddiv (M ! i ! q) (M ! i ! c)
      else dsub (M ! r ! q) (dmul (M ! r ! c) (ddiv (M ! i ! q) (M ! i ! c))))" if "q < n" for q
    unfolding M'_def using rect i r that by (rule ref_step_entry)
  show "is_finite (M ! r ! k)"
  proof (rule ccontr)
    assume bad: "\<not> is_finite (M ! r ! k)"
    consider "r < i" | "r = i" | "i < r" by linarith
    then show False
    proof cases
      case 1
      then show False using fin' [OF kn] entry [OF kn] bad by simp
    next
      case 2
      show False
      proof (cases "is_finite (M ! i ! c)")
        case True
        then have "\<not> is_finite (ddiv (M ! i ! k) (M ! i ! c))"
          using bad 2 by (simp add: ddiv_not_finite)
        then show False using fin' [OF kn] entry [OF kn] 2 by simp
      next
        case False
        then have "\<not> is_finite (ddiv (M ! i ! c) (M ! i ! c))" by (rule ddiv_self_not_finite)
        then show False using fin' [OF cn] entry [OF cn] 2 by simp
      qed
    next
      case 3
      then show False using fin' [OF kn] entry [OF kn] dsub_not_finite [OF bad] by simp
    qed
  qed
qed

lemma rref_step_finite:
  assumes rect: "rect n M" and i: "i < length M"
    and fin: "finite_matrix (eliminate_above i c M)"
  shows "finite_matrix M"
proof (rule finite_matrixI)
  fix r k
  assume r: "r < length M" and k: "k < length (M ! r)"
  have kn: "k < n" using k rect r by (simp add: rect_nth)
  have "length (eliminate_above i c M ! r) = n"
    using rect_eliminate_above [OF rect i] by (rule rect_nth) (use r in simp)
  then have "is_finite (eliminate_above i c M ! r ! k)"
    using fin r kn by (simp add: finite_matrix_nth)
  then show "is_finite (M ! r ! k)"
    using rref_step_entry [OF rect i r kn, of c] dsub_not_finite [of "M ! r ! k"]
    by (auto split: if_splits)
qed

lemma ref_loop_finite:
  assumes "rect n M" and "\<forall>i\<in>set idxs. i < length M" and "ref_loop idxs M = Inr R"
    and "finite_matrix R"
  shows "finite_matrix M"
  using assms
proof (induction idxs arbitrary: M)
  case Nil
  then show ?case by simp
next
  case (Cons i rest)
  then have i: "i < length M" by simp
  have rest: "\<forall>i\<in>set rest. i < length M" using Cons.prems(2) by simp
  show ?case
  proof (cases "findIndex nonzero (M ! i)")
    case None
    then have "ref_loop rest M = Inr R" using Cons.prems(3) by simp
    then show ?thesis using Cons.IH [OF Cons.prems(1) rest] Cons.prems(4) by blast
  next
    case (Some c)
    from lead_SomeD [OF Some] have c: "c < length (M ! i)" by simp
    define M' where "M' = eliminate_below i c (normalise i (M ! i ! c) M)"
    have run: "ref_loop rest M' = Inr R"
      using Cons.prems(3) Some c by (simp add: js_read_def M'_def)
    have "rect n M'" unfolding M'_def using Cons.prems(1) by (rule ref_step_rect)
    moreover have "\<forall>i\<in>set rest. i < length M'" using Cons.prems(2) by (simp add: M'_def)
    ultimately have "finite_matrix M'" using Cons.IH [of M'] run Cons.prems(4) by blast
    then show ?thesis
      unfolding M'_def using Cons.prems(1) i Some by (rule ref_step_finite [rotated 3])
  qed
qed

lemma rref_loop_finite:
  assumes "rect n M" and "\<forall>i\<in>set idxs. i < length M" and "finite_matrix (rref_loop idxs M)"
  shows "finite_matrix M"
  using assms
proof (induction idxs arbitrary: M)
  case Nil
  then show ?case by simp
next
  case (Cons i rest)
  then have i: "i < length M" by simp
  have rest: "\<forall>i\<in>set rest. i < length M" using Cons.prems(2) by simp
  show ?case
  proof (cases "findIndex nonzero (M ! i)")
    case None
    then have "finite_matrix (rref_loop rest M)" using Cons.prems(3) by simp
    then show ?thesis using Cons.IH [OF Cons.prems(1) rest] by blast
  next
    case (Some c)
    define M' where "M' = eliminate_above i c M"
    have "rect n M'" unfolding M'_def using Cons.prems(1) i by (rule rect_eliminate_above)
    moreover have "\<forall>i\<in>set rest. i < length M'" using Cons.prems(2) by (simp add: M'_def)
    moreover have "finite_matrix (rref_loop rest M')" using Cons.prems(3) Some by (simp add: M'_def)
    ultimately have "finite_matrix M'" using Cons.IH [of M'] by blast
    then show ?thesis unfolding M'_def using Cons.prems(1) i by (rule rref_step_finite [rotated 2])
  qed
qed

section \<open>The forward pass\<close>

lemma ref_step_echelon:
  assumes rect: "rect n M" and i: "i < length M" and inv: "echelon_upto i M"
    and lead: "findIndex nonzero (M ! i) = Some c" and p: "p = M ! i ! c"
    and num: "numbers M" and fin: "finite_matrix M"
  shows "echelon_upto (Suc i) (eliminate_below i c (normalise i p M))"
proof -
  define M' where "M' = eliminate_below i c (normalise i p M)"
  have len: "length M' = length M" by (simp add: M'_def)
  have rect': "rect n M'" unfolding M'_def using rect by (rule ref_step_rect)
  have c: "c < n" "p \<noteq> Finite 0" "\<And>k. k < c \<Longrightarrow> M ! i ! k = Finite 0"
    using lead_SomeD [OF lead] rect_nth [OF rect i] p by auto
  have F: "is_finite (M ! r ! k)" "is_number (M ! r ! k)" if "r < length M" "k < n" for r k
    using that fin num rect by (simp_all add: finite_matrix_nth numbers_nth rect_nth)
  have pf: "is_finite p" using F(1) [OF i c(1)] p by simp
  have entry: "M' ! r ! k =
     (if r < i then M ! r ! k
      else if r = i then ddiv (M ! i ! k) p
      else dsub (M ! r ! k) (dmul (M ! r ! c) (ddiv (M ! i ! k) p)))" if "r < length M" "k < n" for r k
    unfolding M'_def using rect i that by (rule ref_step_entry)
  have above: "M' ! r = M ! r" if "r < i" for r
  proof (rule row_eqI [where n = n])
    show "length (M' ! r) = n" using rect' that i len by (simp add: rect_nth)
    show "length (M ! r) = n" using rect that i by (simp add: rect_nth)
    show "M' ! r ! k = M ! r ! k" if "k < n" for k
      using entry [of r k] that \<open>r < i\<close> i by simp
  qed
  have one: "M' ! i ! c = Finite 1"
    using entry [OF i c(1)] p ddiv_self [OF pf c(2)] by simp
  have left: "M' ! i ! k = Finite 0" if "k < c" for k
    using entry [of i k] i c(1) c(3) [OF that] that ddiv_zero [OF pf c(2)] by simp
  have below: "M' ! j ! c = Finite 0" if "j < length M" "i < j" for j
  proof -
    have "M' ! j ! c = dsub (M ! j ! c) (dmul (M ! j ! c) (Finite 1))"
      using entry [OF that(1) c(1)] that(2) p ddiv_self [OF pf c(2)] by simp
    then show ?thesis using F [OF that(1) c(1)] by (simp add: dmul_one dsub_self)
  qed
  have lead_i: "findIndex nonzero (M' ! i) = Some c"
  proof (rule lead_SomeI)
    show "c < length (M' ! i)" using rect' i len c by (simp add: rect_nth)
    show "M' ! i ! c \<noteq> Finite 0" using one by simp
    show "M' ! i ! k = Finite 0" if "k < c" for k using left [OF that] .
  qed
  show ?thesis
    unfolding echelon_upto_def M'_def [symmetric]
  proof (intro allI impI)
    fix k d
    assume k: "k < Suc i" and d: "findIndex nonzero (M' ! k) = Some d"
    show "M' ! k ! d = Finite 1 \<and> (\<forall>j<length M'. k < j \<longrightarrow> M' ! j ! d = Finite 0)"
    proof (cases "k = i")
      case True
      then have dc: "d = c" using d lead_i by simp
      show ?thesis using True dc one below len by simp
    next
      case False
      then have ki: "k < i" using k by simp
      then have dM: "findIndex nonzero (M ! k) = Some d" using d above by simp
      from inv ki dM have oneM: "M ! k ! d = Finite 1" and
        belowM: "\<And>j. j < length M \<Longrightarrow> k < j \<Longrightarrow> M ! j ! d = Finite 0"
        unfolding echelon_upto_def by blast+
      have dn: "d < n" using lead_SomeD [OF dM] rect ki i by (simp add: rect_nth)
      have id: "M ! i ! d = Finite 0" using belowM [OF i ki] .
      have "M' ! j ! d = Finite 0" if "j < length M'" "k < j" for j
      proof -
        have j: "j < length M" using that(1) len by simp
        have jd: "M ! j ! d = Finite 0" using belowM [OF j that(2)] .
        consider "j < i" | "j = i" | "i < j" by linarith
        then show ?thesis
        proof cases
          case 1
          then show ?thesis using entry [OF j dn] jd by simp
        next
          case 2
          then show ?thesis using entry [OF j dn] id ddiv_zero [OF pf c(2)] by simp
        next
          case 3
          then have "M' ! j ! d = dsub (Finite 0) (dmul (M ! j ! c) (Finite 0))"
            using entry [OF j dn] jd id ddiv_zero [OF pf c(2)] by simp
          then show ?thesis using F(1) [OF j c(1)] by (simp add: dmul_zero_right)
        qed
      qed
      then show ?thesis using oneM above [OF ki] by simp
    qed
  qed
qed

lemma ref_step_zero_row:
  assumes rect: "rect n M" and i: "i < length M" and r: "r < length M"
    and lead: "findIndex nonzero (M ! i) = Some c"
    and zero: "findIndex nonzero (M ! r) = None"
    and fin: "finite_matrix (eliminate_below i c (normalise i p M))"
  shows "eliminate_below i c (normalise i p M) ! r = M ! r"
proof (rule row_eqI [where n = n])
  define M' where "M' = eliminate_below i c (normalise i p M)"
  have len': "length (M' ! q) = n" if "q < length M" for q
    unfolding M'_def using ref_step_rect [OF rect] by (rule rect_nth) (use that in simp)
  show "length (eliminate_below i c (normalise i p M) ! r) = n" using len' [OF r] by (simp add: M'_def)
  show "length (M ! r) = n" using rect r by (simp add: rect_nth)
  have ri: "r \<noteq> i" using lead zero by auto
  have z: "M ! r ! k = Finite 0" if "k < n" for k
    using zero that rect r by (simp add: lead_None_iff rect_nth)
  have cn: "c < n" using lead_SomeD [OF lead] rect i by (simp add: rect_nth)
  show "eliminate_below i c (normalise i p M) ! r ! k = M ! r ! k" if "k < n" for k
  proof (cases "r < i")
    case True
    then show ?thesis using ref_step_entry [OF rect i r that, of c p] by simp
  next
    case False
    have "is_finite (M' ! i ! k)" using fin i that len' [OF i] by (simp add: M'_def finite_matrix_nth)
    then have "is_finite (ddiv (M ! i ! k) p)"
      using ref_step_entry [OF rect i i that, of c p] by (simp add: M'_def)
    then show ?thesis
      using ref_step_entry [OF rect i r that, of c p] ri False z [OF that] z [OF cn]
      by (simp add: dmul_zero_left)
  qed
qed

lemma echelon_upto_skip:
  "echelon_upto i M \<Longrightarrow> findIndex nonzero (M ! i) = None \<Longrightarrow> echelon_upto (Suc i) M"
  by (auto simp: echelon_upto_def less_Suc_eq)

lemma ref_loop_step:
  assumes "i < length M"
  shows "ref_loop [i..<length M] M =
     (case findIndex nonzero (M ! i) of
        None \<Rightarrow> ref_loop [Suc i..<length M] M
      | Some c \<Rightarrow> ref_loop [Suc i..<length M] (eliminate_below i c (normalise i (M ! i ! c) M)))"
proof (cases "findIndex nonzero (M ! i)")
  case None
  then show ?thesis using assms by (simp add: upt_conv_Cons)
next
  case (Some c)
  then have "c < length (M ! i)" by (simp add: findIndex_Some_iff)
  then show ?thesis using assms Some by (simp add: upt_conv_Cons js_read_def)
qed

lemma ref_loop_total:
  assumes "\<forall>i\<in>set idxs. i < length M"
  shows "\<exists>R. ref_loop idxs M = Inr R \<and> length R = length M"
  using assms
proof (induction idxs arbitrary: M)
  case Nil
  then show ?case by simp
next
  case (Cons i rest)
  show ?case
  proof (cases "findIndex nonzero (M ! i)")
    case None
    then show ?thesis using Cons.IH [of M] Cons.prems by simp
  next
    case (Some c)
    then have c: "c < length (M ! i)" by (simp add: findIndex_Some_iff)
    define M' where "M' = eliminate_below i c (normalise i (M ! i ! c) M)"
    have "\<forall>i\<in>set rest. i < length M'" using Cons.prems by (simp add: M'_def)
    from Cons.IH [OF this] show ?thesis using Some c by (simp add: js_read_def M'_def)
  qed
qed

lemma ref_loop_echelon:
  assumes "rect n M" and "numbers M" and "echelon_upto i M" and "i \<le> length M"
    and "ref_loop [i..<length M] M = Inr R" and "finite_matrix R"
  shows "length R = length M \<and> rect n R \<and> numbers R \<and> echelon_upto (length M) R \<and>
           (\<forall>r<length M. findIndex nonzero (M ! r) = None \<longrightarrow> R ! r = M ! r)"
  using assms
proof (induction "length M - i" arbitrary: i M)
  case 0
  then show ?case by simp
next
  case (Suc d)
  then have i: "i < length M" by simp
  have idx: "\<forall>j\<in>set [i..<length M]. j < length M" by simp
  have finM: "finite_matrix M"
    using Suc.prems(1) idx Suc.prems(5) Suc.prems(6) by (rule ref_loop_finite)
  show ?case
  proof (cases "findIndex nonzero (M ! i)")
    case None
    have inv: "echelon_upto (Suc i) M" using Suc.prems(3) None by (rule echelon_upto_skip)
    have run: "ref_loop [Suc i..<length M] M = Inr R"
      using Suc.prems(5) ref_loop_step [OF i] None by simp
    have "d = length M - Suc i" using Suc.hyps(2) by simp
    from Suc.hyps(1) [OF this Suc.prems(1) Suc.prems(2) inv _ run Suc.prems(6)]
    show ?thesis using i by simp
  next
    case (Some c)
    define M' where "M' = eliminate_below i c (normalise i (M ! i ! c) M)"
    have len: "length M' = length M" by (simp add: M'_def)
    have rect': "rect n M'" unfolding M'_def using Suc.prems(1) by (rule ref_step_rect)
    have num': "numbers M'" unfolding M'_def using Suc.prems(1) i Suc.prems(2) by (rule ref_step_numbers)
    have inv': "echelon_upto (Suc i) M'"
      unfolding M'_def using Suc.prems(1) i Suc.prems(3) Some refl Suc.prems(2) finM
      by (rule ref_step_echelon)
    have run: "ref_loop [Suc i..<length M'] M' = Inr R"
      using Suc.prems(5) ref_loop_step [OF i] Some by (simp add: M'_def)
    have finM': "finite_matrix M'"
      using rect' _ run Suc.prems(6) by (rule ref_loop_finite) simp
    have "d = length M' - Suc i" using Suc.hyps(2) len by simp
    from Suc.hyps(1) [OF this rect' num' inv' _ run Suc.prems(6)]
    have R: "length R = length M'" "rect n R" "numbers R" "echelon_upto (length M') R"
      "\<forall>r<length M'. findIndex nonzero (M' ! r) = None \<longrightarrow> R ! r = M' ! r"
      using i len by simp_all
    have zero: "R ! r = M ! r" if "r < length M" "findIndex nonzero (M ! r) = None" for r
    proof -
      have "M' ! r = M ! r"
        unfolding M'_def using Suc.prems(1) i that(1) Some that(2) finM' [unfolded M'_def]
        by (rule ref_step_zero_row)
      then show ?thesis using R(5) that len by simp
    qed
    show ?thesis using R zero len by simp
  qed
qed

lemma rowEchelonForm_total:
  assumes "matrix \<noteq> []"
  shows "\<exists>R. rowEchelonForm matrix = Inr R \<and> length R = length matrix"
  using ref_loop_total [of "[0..<length matrix]" matrix] assms by (simp add: rowEchelonForm_def)

lemma forward_pass_shape:
  assumes "rect n matrix" and "numbers matrix" and "rowEchelonForm matrix = Inr R"
    and "finite_matrix R"
  shows "length R = length matrix" and "rect n R" and "numbers R"
    and "echelon_upto (length R) R"
    and "\<forall>r<length matrix. findIndex nonzero (matrix ! r) = None \<longrightarrow> R ! r = matrix ! r"
proof -
  have ne: "matrix \<noteq> []" using assms(3) by (auto simp: rowEchelonForm_def)
  then have run: "ref_loop [0..<length matrix] matrix = Inr R"
    using assms(3) by (simp add: rowEchelonForm_def)
  have "echelon_upto 0 matrix" by (simp add: echelon_upto_def)
  from ref_loop_echelon [OF assms(1,2) this _ run assms(4)]
  show "length R = length matrix" and "rect n R" and "numbers R"
    and "echelon_upto (length R) R"
    and "\<forall>r<length matrix. findIndex nonzero (matrix ! r) = None \<longrightarrow> R ! r = matrix ! r"
    by simp_all
qed

section \<open>The backward pass\<close>

lemma cleared_from_skip:
  "cleared_from (Suc i) M \<Longrightarrow> findIndex nonzero (M ! i) = None \<Longrightarrow> cleared_from i M"
  unfolding cleared_from_def by (metis Suc_leI le_neq_implies_less option.distinct(1))

lemma rref_step_below:
  assumes rect: "rect n M" and i: "i < length M" and r: "r < length M" and ir: "i \<le> r"
  shows "eliminate_above i c M ! r = M ! r"
  using assms by (simp add: eliminate_above_nth)

lemma rref_step_lead:
  assumes rect: "rect n M" and i: "i < length M" and ech: "echelon_upto (length M) M"
    and lead: "findIndex nonzero (M ! i) = Some c" and r: "r < length M"
    and fin: "finite_matrix M"
  shows "findIndex nonzero (eliminate_above i c M ! r) = findIndex nonzero (M ! r)"
proof (cases "r < i")
  case False
  then show ?thesis using rref_step_below [OF rect i r] by simp
next
  case True
  define M' where "M' = eliminate_above i c M"
  have rect': "rect n M'" unfolding M'_def using rect i by (rule rect_eliminate_above)
  have len: "length (M' ! r) = n" "length (M ! r) = n"
    using rect' rect r by (simp_all add: rect_nth M'_def)
  have F: "is_finite (M ! q ! k)" if "q < length M" "k < n" for q k
    using that fin rect by (simp add: finite_matrix_nth rect_nth)
  have entry: "M' ! r ! k = dsub (M ! r ! k) (dmul (M ! r ! c) (M ! i ! k))" if "k < n" for k
    unfolding M'_def using rref_step_entry [OF rect i r that, of c] True by simp
  have c: "c < n" "\<And>k. k < c \<Longrightarrow> M ! i ! k = Finite 0"
    using lead_SomeD [OF lead] rect_nth [OF rect i] by auto
  show ?thesis
  proof (cases "findIndex nonzero (M ! r)")
    case None
    then have z: "M ! r ! k = Finite 0" if "k < n" for k
      using that len by (simp add: lead_None_iff)
    have "M' ! r ! k = Finite 0" if "k < n" for k
      using entry [OF that] z [OF that] z [OF c(1)] F [OF i that] by (simp add: dmul_zero_left)
    then have "findIndex nonzero (M' ! r) = None" using len by (simp add: lead_None_iff)
    then show ?thesis using None by (simp add: M'_def)
  next
    case (Some d)
    have d: "d < n" "\<And>k. k < d \<Longrightarrow> M ! r ! k = Finite 0"
      using lead_SomeD [OF Some] len by auto
    from ech r Some have one: "M ! r ! d = Finite 1" and id: "M ! i ! d = Finite 0"
      unfolding echelon_upto_def using i True by blast+
    have "findIndex nonzero (M' ! r) = Some d"
    proof (rule lead_SomeI)
      show "d < length (M' ! r)" using d len by simp
      show "M' ! r ! d \<noteq> Finite 0"
        using entry [OF d(1)] one id F [OF r c(1)] by (simp add: dmul_zero_right)
      show "M' ! r ! k = Finite 0" if "k < d" for k
      proof (cases "c < d")
        case True
        then have "M ! r ! c = Finite 0" using d(2) by simp
        then show ?thesis using entry [of k] that d F [OF i, of k] by (simp add: dmul_zero_left)
      next
        case False
        then have "M ! i ! k = Finite 0" using c(2) [of k] that by simp
        then show ?thesis using entry [of k] that d F [OF r c(1)] by (simp add: dmul_zero_right)
      qed
    qed
    then show ?thesis using Some by (simp add: M'_def)
  qed
qed

lemma rref_step_inv:
  assumes rect: "rect n M" and i: "i < length M" and ech: "echelon_upto (length M) M"
    and clr: "cleared_from (Suc i) M"
    and lead: "findIndex nonzero (M ! i) = Some c"
    and num: "numbers M" and fin: "finite_matrix M"
  shows "echelon_upto (length M) (eliminate_above i c M) \<and>
         cleared_from i (eliminate_above i c M)"
proof -
  define M' where "M' = eliminate_above i c M"
  have len: "length M' = length M" by (simp add: M'_def)
  have F: "is_finite (M ! q ! k)" "is_number (M ! q ! k)" if "q < length M" "k < n" for q k
    using that fin num rect by (simp_all add: finite_matrix_nth numbers_nth rect_nth)
  have entry: "M' ! r ! k =
      (if r < i then dsub (M ! r ! k) (dmul (M ! r ! c) (M ! i ! k)) else M ! r ! k)"
    if "r < length M" "k < n" for r k
    unfolding M'_def using rect i that by (rule rref_step_entry)
  have leads: "findIndex nonzero (M' ! r) = findIndex nonzero (M ! r)" if "r < length M" for r
    unfolding M'_def using rect i ech lead that fin by (rule rref_step_lead)
  have col: "d < n" if "r < length M" "findIndex nonzero (M ! r) = Some d" for r d
    using lead_SomeD [OF that(2)] rect that(1) by (simp add: rect_nth)
  have E: "M ! r ! d = Finite 1" "\<And>j. j < length M \<Longrightarrow> r < j \<Longrightarrow> M ! j ! d = Finite 0"
    if "r < length M" "findIndex nonzero (M ! r) = Some d" for r d
    using ech that unfolding echelon_upto_def by blast+
  have C: "M ! j ! d = Finite 0"
    if "r < length M" "Suc i \<le> r" "findIndex nonzero (M ! r) = Some d" "j < r" for r d j
    using clr that unfolding cleared_from_def by blast
  note cn = col [OF i lead]
  have ech': "echelon_upto (length M) M'"
    unfolding echelon_upto_def len
  proof (intro allI impI)
    fix r d
    assume r: "r < length M" and d: "findIndex nonzero (M' ! r) = Some d"
    then have dM: "findIndex nonzero (M ! r) = Some d" using leads by simp
    note dn = col [OF r dM]
    have id: "M ! i ! d = Finite 0" if "r < i" using E(2) [OF r dM i that] .
    have one: "M' ! r ! d = Finite 1"
      using entry [OF r dn] E(1) [OF r dM] id F(1) [OF r cn]
      by (simp add: dmul_zero_right)
    have "M' ! j ! d = Finite 0" if "j < length M" "r < j" for j
      using entry [OF that(1) dn] E(2) [OF r dM that] id that(2) F(1) [OF that(1) cn]
      by (simp add: dmul_zero_right)
    then show "M' ! r ! d = Finite 1 \<and> (\<forall>j<length M. r < j \<longrightarrow> M' ! j ! d = Finite 0)"
      using one by simp
  qed
  have clr': "cleared_from i M'"
    unfolding cleared_from_def len
  proof (intro allI impI)
    fix r d j
    assume r: "r < length M" and ir: "i \<le> r" and d: "findIndex nonzero (M' ! r) = Some d"
      and j: "j < r"
    then have dM: "findIndex nonzero (M ! r) = Some d" using leads by simp
    note dn = col [OF r dM]
    have jl: "j < length M" using j r by simp
    show "M' ! j ! d = Finite 0"
    proof (cases "r = i")
      case True
      then have "d = c" using dM lead by simp
      then show ?thesis
        using entry [OF jl dn] E(1) [OF i lead] j True F [OF jl cn]
        by (simp add: dmul_one dsub_self)
    next
      case False
      then have ri: "Suc i \<le> r" using ir by simp
      have "M ! j ! d = Finite 0" using C [OF r ri dM j] .
      moreover have "M ! i ! d = Finite 0" using C [OF r ri dM, of i] ri by simp
      ultimately show ?thesis using entry [OF jl dn] F(1) [OF jl cn]
        by (simp add: dmul_zero_right)
    qed
  qed
  show ?thesis using ech' clr' by (simp add: M'_def)
qed

lemma rref_loop_inv:
  assumes "rect n M" and "numbers M" and "echelon_upto (length M) M" and "cleared_from t M"
    and "t \<le> length M" and "finite_matrix (rref_loop (rev [0..<t]) M)"
  shows "length (rref_loop (rev [0..<t]) M) = length M \<and> rect n (rref_loop (rev [0..<t]) M) \<and>
         numbers (rref_loop (rev [0..<t]) M) \<and>
         echelon_upto (length M) (rref_loop (rev [0..<t]) M) \<and>
         cleared_from 0 (rref_loop (rev [0..<t]) M) \<and>
         (\<forall>r<length M. findIndex nonzero (rref_loop (rev [0..<t]) M ! r)
                         = findIndex nonzero (M ! r))"
  using assms
proof (induction t arbitrary: M)
  case 0
  then show ?case by simp
next
  case (Suc t)
  then have t: "t < length M" by simp
  have finM: "finite_matrix M"
    using Suc.prems(1) _ Suc.prems(6) by (rule rref_loop_finite) (use Suc.prems(5) in auto)
  show ?case
  proof (cases "findIndex nonzero (M ! t)")
    case None
    have "cleared_from t M" using Suc.prems(4) None by (rule cleared_from_skip)
    moreover have "finite_matrix (rref_loop (rev [0..<t]) M)" using Suc.prems(6) None by simp
    ultimately show ?thesis using Suc.IH [of M] Suc.prems(1,2,3) t None by simp
  next
    case (Some c)
    define M' where "M' = eliminate_above t c M"
    have len: "length M' = length M" by (simp add: M'_def)
    have rect': "rect n M'" unfolding M'_def using Suc.prems(1) t by (rule rect_eliminate_above)
    have num': "numbers M'" unfolding M'_def using Suc.prems(1) t Suc.prems(2) by (rule rref_step_numbers)
    have inv: "echelon_upto (length M') M'" "cleared_from t M'"
      using rref_step_inv [OF Suc.prems(1) t Suc.prems(3) Suc.prems(4) Some Suc.prems(2) finM]
      by (simp_all add: M'_def)
    have leads: "findIndex nonzero (M' ! r) = findIndex nonzero (M ! r)" if "r < length M" for r
      unfolding M'_def using Suc.prems(1) t Suc.prems(3) Some that finM by (rule rref_step_lead)
    have "t \<le> length M'" using t len by simp
    moreover have "finite_matrix (rref_loop (rev [0..<t]) M')"
      using Suc.prems(6) Some by (simp add: M'_def)
    ultimately show ?thesis
      using Suc.IH [OF rect' num' inv] Some len leads by (simp add: M'_def)
  qed
qed

lemma cleared_from_top: "cleared_from (length M) M"
  by (simp add: cleared_from_def)

lemma rref_of_echelon:
  assumes "rect n M" and "numbers M" and "echelon_upto (length M) M"
    and "finite_matrix (reducedRowEchelonForm M)"
  shows "length (reducedRowEchelonForm M) = length M"
    and "rect n (reducedRowEchelonForm M)"
    and "numbers (reducedRowEchelonForm M)"
    and "echelon_upto (length M) (reducedRowEchelonForm M)"
    and "cleared_from 0 (reducedRowEchelonForm M)"
    and "\<And>r. r < length M \<Longrightarrow>
           findIndex nonzero (reducedRowEchelonForm M ! r) = findIndex nonzero (M ! r)"
  using rref_loop_inv [OF assms(1,2,3) cleared_from_top order_refl]
    assms(4) [unfolded reducedRowEchelonForm_def]
  by (simp_all add: reducedRowEchelonForm_def)

lemma reducedRowEchelonForm_length [simp]:
  "length (reducedRowEchelonForm M) = length M"
proof -
  have "length (rref_loop idxs N) = length N" for idxs N
    by (induction idxs arbitrary: N) (simp_all split: option.splits)
  then show ?thesis by (simp add: reducedRowEchelonForm_def)
qed

lemma reducedRowEchelonForm_finite:
  assumes "rect n M" and "finite_matrix (reducedRowEchelonForm M)"
  shows "finite_matrix M"
  using assms(1) _ assms(2) [unfolded reducedRowEchelonForm_def]
  by (rule rref_loop_finite) simp

lemma eliminate_above_fixed:
  assumes rect: "rect n M" and i: "i < length M"
    and zero: "\<And>r. r < i \<Longrightarrow> M ! r ! c = Finite 0"
    and num: "numbers M" and fin: "finite_matrix M"
  shows "eliminate_above i c M = M"
proof (rule nth_equalityI)
  show "length (eliminate_above i c M) = length M" by simp
  fix r
  assume "r < length (eliminate_above i c M)"
  then have r: "r < length M" by simp
  show "eliminate_above i c M ! r = M ! r"
  proof (rule row_eqI [where n = n])
    show "length (eliminate_above i c M ! r) = n"
      using rect_eliminate_above [OF rect i] by (rule rect_nth) (use r in simp)
    show "length (M ! r) = n" using rect r by (simp add: rect_nth)
    show "eliminate_above i c M ! r ! k = M ! r ! k" if "k < n" for k
    proof -
      have "is_finite (M ! i ! k)" "is_number (M ! r ! k)"
        using fin num rect i r that by (simp_all add: finite_matrix_nth numbers_nth rect_nth)
      then show ?thesis
        using rref_step_entry [OF rect i r that, of c] zero [of r]
        by (simp add: dmul_zero_left dsub_zero)
    qed
  qed
qed

lemma rref_loop_fixed:
  assumes "rect n M" and "cleared_from 0 M" and "numbers M" and "finite_matrix M"
    and "t \<le> length M"
  shows "rref_loop (rev [0..<t]) M = M"
  using assms(5)
proof (induction t)
  case 0
  then show ?case by simp
next
  case (Suc t)
  then have t: "t < length M" by simp
  show ?case
  proof (cases "findIndex nonzero (M ! t)")
    case None
    then show ?thesis using Suc by simp
  next
    case (Some c)
    have "M ! r ! c = Finite 0" if "r < t" for r
      using assms(2) t Some that unfolding cleared_from_def by blast
    then have "eliminate_above t c M = M" using assms(1) t assms(3,4) by (intro eliminate_above_fixed)
    then show ?thesis using Suc Some by simp
  qed
qed

lemma rref_fixed:
  "rect n M \<Longrightarrow> cleared_from 0 M \<Longrightarrow> numbers M \<Longrightarrow> finite_matrix M \<Longrightarrow>
   reducedRowEchelonForm M = M"
  by (simp add: reducedRowEchelonForm_def rref_loop_fixed)

lemma reducedI:
  assumes "echelon_upto (length M) M" and "cleared_from 0 M"
  shows "reduced M"
  unfolding reduced_def
proof (intro allI impI)
  fix i c
  assume i: "i < length M" and c: "findIndex nonzero (M ! i) = Some c"
  have one: "M ! i ! c = Finite 1"
    and below: "\<And>j. j < length M \<Longrightarrow> i < j \<Longrightarrow> M ! j ! c = Finite 0"
    using assms(1) i c unfolding echelon_upto_def by blast+
  have above: "M ! j ! c = Finite 0" if "j < i" for j
    using assms(2) i c that unfolding cleared_from_def by blast
  show "M ! i ! c = Finite 1 \<and> (\<forall>j<length M. j \<noteq> i \<longrightarrow> M ! j ! c = Finite 0)"
    using one below above by (metis nat_neq_iff)
qed

lemma reduced_lead_unique:
  assumes "reduced M" and "i < length M" and "j < length M"
    and "findIndex nonzero (M ! i) = Some c" and "findIndex nonzero (M ! j) = Some c"
  shows "i = j"
proof (rule ccontr)
  assume "i \<noteq> j"
  then have "M ! j ! c = Finite 0" using assms(1,2,3,4) unfolding reduced_def by blast
  then show False using lead_SomeD [OF assms(5)] by simp
qed

text \<open>Both passes together, when the result holds finite numbers only.\<close>

lemma pipeline_reduced:
  assumes "rect n matrix" and "numbers matrix" and "rowEchelonForm matrix = Inr R"
    and "finite_matrix (reducedRowEchelonForm R)"
  shows "length R = length matrix" and "rect n R" and "numbers R" and "finite_matrix R"
    and "echelon_upto (length R) R"
    and "rect n (reducedRowEchelonForm R)" and "numbers (reducedRowEchelonForm R)"
    and "reduced (reducedRowEchelonForm R)" and "cleared_from 0 (reducedRowEchelonForm R)"
proof -
  have ne: "matrix \<noteq> []" using assms(3) by (auto simp: rowEchelonForm_def)
  then have run: "ref_loop [0..<length matrix] matrix = Inr R"
    using assms(3) by (simp add: rowEchelonForm_def)
  from ref_loop_total [of "[0..<length matrix]" matrix] run
  show len: "length R = length matrix" by simp
  have rectR: "rect n R"
  proof -
    have "rect n N \<Longrightarrow> ref_loop idxs N = Inr R \<Longrightarrow> rect n R" for idxs N
    proof (induction idxs arbitrary: N)
      case Nil
      then show ?case by simp
    next
      case (Cons i rest)
      then show ?case
        by (auto split: option.splits simp: js_read_def intro: ref_step_rect split: if_splits)
    qed
    then show ?thesis using assms(1) run by blast
  qed
  then show "rect n R" .
  show finR: "finite_matrix R" using rectR assms(4) by (rule reducedRowEchelonForm_finite)
  from forward_pass_shape [OF assms(1,2,3) finR]
  show numR: "numbers R" and echR: "echelon_upto (length R) R" by simp_all
  note N = rref_of_echelon [OF rectR numR echR assms(4)]
  show "rect n (reducedRowEchelonForm R)" "numbers (reducedRowEchelonForm R)"
    "cleared_from 0 (reducedRowEchelonForm R)"
    using N by simp_all
  show "reduced (reducedRowEchelonForm R)" using N(4) N(5) N(1) by (intro reducedI) simp_all
qed

section \<open>The forward pass works on prefixes\<close>

text \<open>Row \<open>i\<close> of the result of \<open>rowEchelonForm\<close> depends on the rows \<open>0, ..., i\<close> of its
  argument only: the loop never moves a row and never reads a later one.\<close>

lemma ref_loop_prefix:
  assumes "i \<le> length M" and "ref_loop [i..<length M] M = Inr R"
  shows "length R = length M \<and> (\<forall>r<i. R ! r = M ! r)"
  using assms
proof (induction "length M - i" arbitrary: i M)
  case 0
  then show ?case by simp
next
  case (Suc d)
  then have i: "i < length M" by simp
  show ?case
  proof (cases "findIndex nonzero (M ! i)")
    case None
    then have "ref_loop [Suc i..<length M] M = Inr R"
      using Suc.prems(2) ref_loop_step [OF i] by simp
    moreover have "d = length M - Suc i" using Suc.hyps(2) by simp
    ultimately show ?thesis using Suc.hyps(1) [of M "Suc i"] i by simp
  next
    case (Some c)
    define M' where "M' = eliminate_below i c (normalise i (M ! i ! c) M)"
    have len: "length M' = length M" by (simp add: M'_def)
    have run: "ref_loop [Suc i..<length M'] M' = Inr R"
      using Suc.prems(2) ref_loop_step [OF i] Some by (simp add: M'_def)
    have "d = length M' - Suc i" using Suc.hyps(2) len by simp
    then have R: "length R = length M'" "\<And>r. r < Suc i \<Longrightarrow> R ! r = M' ! r"
      using Suc.hyps(1) [of M' "Suc i"] run i len by simp_all
    have "M' ! r = M ! r" if "r < i" for r
      using that i by (simp add: M'_def eliminate_below_nth normalise_nth)
    then show ?thesis using R len by simp
  qed
qed

lemma ref_step_take:
  assumes "i < t" and "t \<le> length M"
  shows "eliminate_below i c (normalise i p (take t M)) =
         take t (eliminate_below i c (normalise i p M))"
proof (rule nth_equalityI)
  show "length (eliminate_below i c (normalise i p (take t M))) =
        length (take t (eliminate_below i c (normalise i p M)))"
    using assms by simp
  fix r
  assume "r < length (eliminate_below i c (normalise i p (take t M)))"
  then have r: "r < t" using assms by simp
  then show "eliminate_below i c (normalise i p (take t M)) ! r =
        take t (eliminate_below i c (normalise i p M)) ! r"
    using assms by (simp add: eliminate_below_nth normalise_nth)
qed

lemma ref_loop_take:
  assumes "i \<le> t" and "t \<le> length M" and "ref_loop [i..<length M] M = Inr R"
  shows "ref_loop [i..<t] (take t M) = Inr (take t R)"
  using assms
proof (induction "t - i" arbitrary: i M)
  case 0
  then have "i = t" by simp
  then have "take t R = take t M"
    using ref_loop_prefix [OF _ "0.prems"(3)] "0.prems"(2)
    by (auto intro!: nth_equalityI)
  then show ?case using \<open>i = t\<close> by simp
next
  case (Suc d)
  then have it: "i < t" and i: "i < length M" by simp_all
  have i': "i < length (take t M)" using it Suc.prems(2) by simp
  have tl: "[i..<t] = [i..<length (take t M)]" using Suc.prems(2) by simp
  have row: "take t M ! i = M ! i" using it by simp
  show ?case
  proof (cases "findIndex nonzero (M ! i)")
    case None
    then have "ref_loop [Suc i..<length M] M = Inr R"
      using Suc.prems(3) ref_loop_step [OF i] by simp
    moreover have "d = t - Suc i" using Suc.hyps(2) by simp
    ultimately have "ref_loop [Suc i..<t] (take t M) = Inr (take t R)"
      using Suc.hyps(1) [of "Suc i" M] it Suc.prems(2) by simp
    then show ?thesis
      unfolding tl using ref_loop_step [OF i'] None row Suc.prems(2) by simp
  next
    case (Some c)
    define M' where "M' = eliminate_below i c (normalise i (M ! i ! c) M)"
    have len: "length M' = length M" by (simp add: M'_def)
    have run: "ref_loop [Suc i..<length M'] M' = Inr R"
      using Suc.prems(3) ref_loop_step [OF i] Some by (simp add: M'_def)
    have "d = t - Suc i" using Suc.hyps(2) by simp
    then have "ref_loop [Suc i..<t] (take t M') = Inr (take t R)"
      using Suc.hyps(1) [of "Suc i" M'] it Suc.prems(2) run len by simp
    moreover have "take t M' = eliminate_below i c (normalise i (M ! i ! c) (take t M))"
      unfolding M'_def using ref_step_take [OF it Suc.prems(2)] by simp
    ultimately show ?thesis
      unfolding tl using ref_loop_step [OF i'] Some row Suc.prems(2) by simp
  qed
qed

lemma rowEchelonForm_take:
  assumes "rowEchelonForm M = Inr R" and "0 < t" and "t \<le> length M"
  shows "rowEchelonForm (take t M) = Inr (take t R)"
proof -
  have "M \<noteq> []" using assms(2,3) by auto
  then have "ref_loop [0..<length M] M = Inr R" using assms(1) by (simp add: rowEchelonForm_def)
  then have "ref_loop [0..<t] (take t M) = Inr (take t R)"
    using assms(3) by (intro ref_loop_take) simp_all
  moreover have "take t M \<noteq> []" using assms(2) \<open>M \<noteq> []\<close> by simp
  moreover have "length (take t M) = t" using assms(3) by simp
  ultimately show ?thesis by (simp add: rowEchelonForm_def)
qed

section \<open>The particular solution\<close>

lemma js_assign_inside: "i < length xs \<Longrightarrow> js_assign xs i v = xs[i := v]"
  by (simp add: js_assign_def)

lemma fold_assign:
  assumes "\<forall>(i, v)\<in>set ws. i < length xs"
  shows "length (foldl (\<lambda>ps (i, v). js_assign ps i v) xs ws) = length xs \<and>
         (\<forall>k<length xs. foldl (\<lambda>ps (i, v). js_assign ps i v) xs ws ! k =
            (case map_of (rev ws) k of None \<Rightarrow> xs ! k | Some v \<Rightarrow> v))"
  using assms
proof (induction ws rule: rev_induct)
  case Nil
  then show ?case by simp
next
  case (snoc w ws)
  obtain i v where w: "w = (i, v)" by (cases w)
  have i: "i < length xs" using snoc.prems w by simp
  from snoc have IH: "length (foldl (\<lambda>ps (i, v). js_assign ps i v) xs ws) = length xs"
    "\<And>k. k < length xs \<Longrightarrow> foldl (\<lambda>ps (i, v). js_assign ps i v) xs ws ! k =
            (case map_of (rev ws) k of None \<Rightarrow> xs ! k | Some v \<Rightarrow> v)"
    by simp_all
  show ?case using IH i by (simp add: w js_assign_inside nth_list_update)
qed

lemma particularWrites_iff:
  "(c, v) \<in> set (particularWrites M) \<longleftrightarrow>
     (\<exists>r<length M. findIndex nonzero (M ! r) = Some c \<and> v = M ! r ! (length (M ! 0) - 1))"
proof -
  have "(c, v) \<in> set (particularWrites M) \<longleftrightarrow>
     (\<exists>row\<in>set M. findIndex nonzero row = Some c \<and> v = row ! (length (M ! 0) - 1))"
    by (force simp: particularWrites_def split: option.splits)
  also have "\<dots> \<longleftrightarrow>
     (\<exists>r<length M. findIndex nonzero (M ! r) = Some c \<and> v = M ! r ! (length (M ! 0) - 1))"
    by (metis in_set_conv_nth)
  finally show ?thesis .
qed

lemma particular_nth:
  assumes rect: "rect n N" and ne: "N \<noteq> []" and n: "0 < n"
    and cols: "\<forall>r<length N. \<forall>c. findIndex nonzero (N ! r) = Some c \<longrightarrow> c < n - 1"
  shows "\<exists>p. findParticularSolution N = Inr p \<and> length p = n - 1 \<and>
           (\<forall>k<n - 1. (p ! k = Finite 0 \<and> (\<forall>r<length N. findIndex nonzero (N ! r) \<noteq> Some k)) \<or>
                      (\<exists>r<length N. findIndex nonzero (N ! r) = Some k \<and> p ! k = N ! r ! (n - 1)))"
proof -
  have n0: "length (N ! 0) = n" using rect ne by (simp add: rect_nth)
  define ws where "ws = particularWrites N"
  define p where "p = foldl (\<lambda>ps (i, v). js_assign ps i v) (replicate (n - 1) (Finite 0)) ws"
  have run: "findParticularSolution N = Inr p"
    using ne n n0 by (simp add: findParticularSolution_def p_def ws_def)
  have mem: "(c, v) \<in> set ws \<longleftrightarrow>
      (\<exists>r<length N. findIndex nonzero (N ! r) = Some c \<and> v = N ! r ! (n - 1))" for c v
    unfolding ws_def particularWrites_iff n0 ..
  have "\<forall>(i, v)\<in>set ws. i < length (replicate (n - 1) (Finite 0))"
    using mem cols by auto
  from fold_assign [OF this, folded p_def]
  have len: "length p = n - 1"
    and nth: "\<And>k. k < n - 1 \<Longrightarrow>
       p ! k = (case map_of (rev ws) k of None \<Rightarrow> Finite 0 | Some v \<Rightarrow> v)"
    by (auto split: option.splits)
  have "(p ! k = Finite 0 \<and> (\<forall>r<length N. findIndex nonzero (N ! r) \<noteq> Some k)) \<or>
        (\<exists>r<length N. findIndex nonzero (N ! r) = Some k \<and> p ! k = N ! r ! (n - 1))"
    if k: "k < n - 1" for k
  proof (cases "map_of (rev ws) k")
    case None
    then have "k \<notin> fst ` set ws" by (simp add: map_of_eq_None_iff)
    then have "\<forall>r<length N. findIndex nonzero (N ! r) \<noteq> Some k"
      using mem by force
    then show ?thesis using nth [OF k] None by simp
  next
    case (Some v)
    then have "(k, v) \<in> set ws" using map_of_SomeD by fastforce
    then show ?thesis using nth [OF k] Some mem by auto
  qed
  then show ?thesis using run len by blast
qed

lemma dot_nth:
  assumes "length u = length v"
  shows "dot u v = (\<Sum>k<length u. u ! k * v ! k)"
proof -
  have "dot u v = (\<Sum>k = 0..<length u. map2 (*) u v ! k)"
    using assms by (simp add: dot_def sum_list_sum_nth)
  also have "\<dots> = (\<Sum>k = 0..<length u. u ! k * v ! k)"
    using assms by (intro sum.cong) simp_all
  finally show ?thesis by (simp add: lessThan_atLeast0)
qed

text \<open>On a reduced matrix of finite numbers with every pivot in a coefficient column the
  vector satisfies each row's equation exactly: the pivot entry is \<open>1\<close>, the vector is \<open>0\<close>
  at the free columns and the other pivot columns are \<open>0\<close> in the row.\<close>

lemma particular_solves:
  assumes rect: "rect n N" and ne: "N \<noteq> []" and n: "0 < n" and red: "reduced N"
    and cols: "\<forall>r<length N. \<forall>c. findIndex nonzero (N ! r) = Some c \<longrightarrow> c < n - 1"
    and vals: "N = map (map Finite) V"
  shows "\<exists>p. findParticularSolution N = Inr (map Finite p) \<and> length p = n - 1 \<and>
           (\<forall>i<length V. dot (take (n - 1) (V ! i)) p = V ! i ! (n - 1))"
proof -
  from particular_nth [OF rect ne n cols] obtain q where
    run: "findParticularSolution N = Inr q" and len: "length q = n - 1" and
    nth: "\<And>k. k < n - 1 \<Longrightarrow>
       (q ! k = Finite 0 \<and> (\<forall>r<length N. findIndex nonzero (N ! r) \<noteq> Some k)) \<or>
       (\<exists>r<length N. findIndex nonzero (N ! r) = Some k \<and> q ! k = N ! r ! (n - 1))"
    by blast
  have lenV: "length V = length N" using vals by simp
  have rowV: "length (V ! r) = n" if "r < length N" for r
    using rect_nth [OF rect that] that vals by simp
  have entry: "N ! r ! k = Finite (V ! r ! k)" if "r < length N" "k < n" for r k
    using that rowV [OF that(1)] vals by simp
  define p where "p = map val q"
  have "q ! k = Finite (p ! k)" if "k < n - 1" for k
    using nth [OF that] that len entry [of _ "n - 1"] n by (auto simp: p_def)
  then have q: "q = map Finite p" using len by (intro nth_equalityI) (simp_all add: p_def)
  have lenp: "length p = n - 1" using len by (simp add: p_def)
  have pk: "(p ! k = 0 \<and> (\<forall>r<length N. findIndex nonzero (N ! r) \<noteq> Some k)) \<or>
       (\<exists>r<length N. findIndex nonzero (N ! r) = Some k \<and> p ! k = V ! r ! (n - 1))"
    if "k < n - 1" for k
    using nth [OF that] that len entry [of _ "n - 1"] n by (auto simp: p_def)
  have "dot (take (n - 1) (V ! i)) p = V ! i ! (n - 1)" if i: "i < length V" for i
  proof -
    have iN: "i < length N" using i lenV by simp
    have D: "dot (take (n - 1) (V ! i)) p = (\<Sum>k<n - 1. V ! i ! k * p ! k)"
      using rowV [OF iN] lenp by (simp add: dot_nth)
    show ?thesis
    proof (cases "findIndex nonzero (N ! i)")
      case None
      then have "N ! i ! k = Finite 0" if "k < n" for k
        using that rect_nth [OF rect iN] by (simp add: lead_None_iff)
      then have "V ! i ! k = 0" if "k < n" for k using entry [OF iN that] that by simp
      then show ?thesis using D n by simp
    next
      case (Some c)
      have c: "c < n - 1" using cols iN Some by blast
      have "N ! i ! c = Finite 1" using red iN Some unfolding reduced_def by blast
      then have one: "V ! i ! c = 1" using entry [OF iN, of c] c by simp
      have summand: "V ! i ! k * p ! k = (if k = c then V ! i ! (n - 1) else 0)"
        if k: "k < n - 1" for k
      proof (cases "k = c")
        case True
        from pk [OF c] Some iN obtain r where r: "r < length N"
          "findIndex nonzero (N ! r) = Some c" "p ! c = V ! r ! (n - 1)" by blast
        have "r = i" using reduced_lead_unique [OF red r(1) iN r(2) Some] .
        then show ?thesis using True one r(3) by simp
      next
        case False
        from pk [OF k] show ?thesis
        proof
          assume "p ! k = 0 \<and> (\<forall>r<length N. findIndex nonzero (N ! r) \<noteq> Some k)"
          then show ?thesis using False by simp
        next
          assume "\<exists>r<length N. findIndex nonzero (N ! r) = Some k \<and> p ! k = V ! r ! (n - 1)"
          then obtain r where r: "r < length N" "findIndex nonzero (N ! r) = Some k" by blast
          have "r \<noteq> i" using r(2) Some False by auto
          then have "N ! i ! k = Finite 0" using red r iN unfolding reduced_def by blast
          then have "V ! i ! k = 0" using entry [OF iN, of k] k by simp
          then show ?thesis using False by simp
        qed
      qed
      have "(\<Sum>k<n - 1. V ! i ! k * p ! k) = (\<Sum>k<n - 1. if k = c then V ! i ! (n - 1) else 0)"
        by (intro sum.cong) (simp_all add: summand)
      also have "\<dots> = V ! i ! (n - 1)" using c by simp
      finally show ?thesis using D by simp
    qed
  qed
  then show ?thesis using run q lenp by blast
qed

section \<open>Pivot columns and array writes\<close>

text \<open>The list that the \<^verbatim>\<open>forEach\<close> of \<open>identifyPivotColumns\<close> builds, the size of the
  complement that its \<^verbatim>\<open>for\<close> loop collects, and the length of an array after writes.\<close>

lemma pivot_scan_fold:
  "foldl (\<lambda>pivotCols row.
            case findIndex nonzero row of
              Some pivotIndex \<Rightarrow> pivotCols @ [pivotIndex]
            | None \<Rightarrow> pivotCols) acc M =
   acc @ concat (map (\<lambda>row. case findIndex nonzero row of Some c \<Rightarrow> [c] | None \<Rightarrow> []) M)"
  by (induction M arbitrary: acc) (simp_all split: option.splits)

lemma pivot_scan_concat:
  "pivot_scan M = concat (map (\<lambda>row. case findIndex nonzero row of Some c \<Rightarrow> [c] | None \<Rightarrow> []) M)"
  by (simp add: pivot_scan_def pivot_scan_fold)

lemma pivot_scan_Nil [simp]: "pivot_scan [] = []"
  by (simp add: pivot_scan_concat)

lemma pivot_scan_Cons:
  "pivot_scan (row # M) =
     (case findIndex nonzero row of Some c \<Rightarrow> [c] | None \<Rightarrow> []) @ pivot_scan M"
  by (simp add: pivot_scan_concat)

lemma pivot_scan_append: "pivot_scan (M1 @ M2) = pivot_scan M1 @ pivot_scan M2"
  by (simp add: pivot_scan_concat)

lemma set_pivot_scan:
  "c \<in> set (pivot_scan M) \<longleftrightarrow> (\<exists>r<length M. findIndex nonzero (M ! r) = Some c)"
proof -
  have "c \<in> set (pivot_scan M) \<longleftrightarrow> (\<exists>row\<in>set M. findIndex nonzero row = Some c)"
    by (force simp: pivot_scan_concat split: option.splits)
  also have "\<dots> \<longleftrightarrow> (\<exists>r<length M. findIndex nonzero (M ! r) = Some c)"
    by (metis in_set_conv_nth)
  finally show ?thesis .
qed

lemma distinct_pivot_scan:
  assumes "\<And>i j c. i < length M \<Longrightarrow> j < length M \<Longrightarrow> findIndex nonzero (M ! i) = Some c \<Longrightarrow>
             findIndex nonzero (M ! j) = Some c \<Longrightarrow> i = j"
  shows "distinct (pivot_scan M)"
  using assms
proof (induction M)
  case Nil
  then show ?case by simp
next
  case (Cons row M)
  have tl: "distinct (pivot_scan M)"
  proof (rule Cons.IH)
    fix i j c
    assume "i < length M" "j < length M" "findIndex nonzero (M ! i) = Some c"
      "findIndex nonzero (M ! j) = Some c"
    then have "Suc i = Suc j" using Cons.prems [of "Suc i" "Suc j" c] by simp
    then show "i = j" by simp
  qed
  show ?case
  proof (cases "findIndex nonzero row")
    case None
    then show ?thesis using tl by (simp add: pivot_scan_Cons)
  next
    case (Some c)
    have "c \<notin> set (pivot_scan M)"
    proof
      assume "c \<in> set (pivot_scan M)"
      then obtain r where "r < length M" "findIndex nonzero (M ! r) = Some c"
        using set_pivot_scan by blast
      then have "0 = Suc r" using Cons.prems [of 0 "Suc r" c] Some by simp
      then show False by simp
    qed
    then show ?thesis using tl Some by (simp add: pivot_scan_Cons)
  qed
qed

lemma reduced_distinct_pivots: "reduced M \<Longrightarrow> distinct (pivot_scan M)"
  by (rule distinct_pivot_scan) (rule reduced_lead_unique)

lemma identifyPivotColumns_Inr:
  "augmented \<noteq> [] \<Longrightarrow> identifyPivotColumns augmented =
     Inr \<lparr>pivotColumns = pivot_scan augmented,
          nonPivotColumns = filter (\<lambda>j. j \<notin> set (pivot_scan augmented))
                              [0..<length (augmented ! 0) - 1]\<rparr>"
  by (simp add: identifyPivotColumns_def Let_def)

lemma complement_count:
  assumes "distinct ps" and "\<forall>c\<in>set ps. c < (m::nat)"
  shows "length ps + length (filter (\<lambda>j. j \<notin> set ps) [0..<m]) = m"
proof -
  have sub: "set ps \<subseteq> {0..<m}" using assms(2) by auto
  have "length (filter (\<lambda>j. j \<notin> set ps) [0..<m]) = card ({0..<m} - set ps)"
  proof -
    have d: "distinct (filter (\<lambda>j. j \<notin> set ps) [0..<m])" by simp
    have "length (filter (\<lambda>j. j \<notin> set ps) [0..<m])
        = card (set (filter (\<lambda>j. j \<notin> set ps) [0..<m]))"
      by (rule distinct_card [OF d, symmetric])
    also have "set (filter (\<lambda>j. j \<notin> set ps) [0..<m]) = {0..<m} - set ps" by auto
    finally show ?thesis .
  qed
  also have "\<dots> = m - card (set ps)" using sub by (simp add: card_Diff_subset)
  also have "card (set ps) = length ps" using assms(1) by (simp add: distinct_card)
  finally have "length (filter (\<lambda>j. j \<notin> set ps) [0..<m]) = m - length ps" .
  moreover have "length ps \<le> m"
    using card_mono [OF _ sub] assms(1) by (simp add: distinct_card)
  ultimately show ?thesis by simp
qed

lemma lead_replicate:
  "c \<noteq> Finite 0 \<Longrightarrow> findIndex nonzero (replicate k (Finite 0) @ [c]) = Some k"
  by (induction k) (simp_all add: nonzero_def)

lemma lead_replicate_zero: "findIndex nonzero (replicate k (Finite 0)) = None"
  by (induction k) (simp_all add: nonzero_def)

lemma js_assign_length: "length (js_assign xs i v) = max (length xs) (Suc i)"
  by (auto simp: js_assign_def)

lemma fold_assign_length_mono:
  "length xs \<le> length (foldl (\<lambda>ps (i, v). js_assign ps i v) xs ws)"
proof (induction ws arbitrary: xs)
  case Nil
  then show ?case by simp
next
  case (Cons w ws)
  obtain i v where w: "w = (i, v)" by (cases w)
  have "length xs \<le> length (js_assign xs i v)" by (simp add: js_assign_length)
  also have "\<dots> \<le> length (foldl (\<lambda>ps (i, v). js_assign ps i v) (js_assign xs i v) ws)"
    by (rule Cons.IH)
  finally show ?case by (simp add: w)
qed

lemma fold_assign_length_write:
  assumes "(i, v) \<in> set ws"
  shows "i < length (foldl (\<lambda>ps (i, v). js_assign ps i v) xs ws)"
  using assms
proof (induction ws arbitrary: xs)
  case Nil
  then show ?case by simp
next
  case (Cons w ws)
  show ?case
  proof (cases "w = (i, v)")
    case True
    have "i < length (js_assign xs i v)" by (simp add: js_assign_length)
    also have "\<dots> \<le> length (foldl (\<lambda>ps (i, v). js_assign ps i v) (js_assign xs i v) ws)"
      by (rule fold_assign_length_mono)
    finally show ?thesis using True by simp
  next
    case False
    then have "(i, v) \<in> set ws" using Cons.prems by simp
    from Cons.IH [OF this] show ?thesis by (cases w) simp
  qed
qed


lemma augmentedMatrix_length [simp]: "length (augmentedMatrix A b) = length A"
  by (simp add: augmentedMatrix_def)

lemma augmentedMatrix_nth:
  "i < length A \<Longrightarrow> augmentedMatrix A b ! i = A ! i @ [b ! i]"
  by (simp add: augmentedMatrix_def)

lemma rect_augmentedMatrix: "rect nc A \<Longrightarrow> rect (Suc nc) (augmentedMatrix A b)"
  by (auto intro!: rectI simp: augmentedMatrix_nth rect_nth)

lemma numbers_augmentedMatrix:
  assumes "numbers A" and "list_all is_number b" and "length b = length A"
  shows "numbers (augmentedMatrix A b)"
proof (rule numbersI)
  fix r k
  assume r: "r < length (augmentedMatrix A b)" and k: "k < length (augmentedMatrix A b ! r)"
  have r': "r < length A" using r by simp
  have "is_number (b ! r)" using assms(2,3) r' by (simp add: list_all_length)
  moreover have "is_number (A ! r ! q)" if "q < length (A ! r)" for q
    using assms(1) r' that by (rule numbers_nth)
  ultimately show "is_number (augmentedMatrix A b ! r ! k)"
    using k r' by (auto simp: augmentedMatrix_nth nth_append less_Suc_eq)
qed

section \<open>Evaluation on concrete inputs\<close>

text \<open>Integers up to \<open>2 ^ 53\<close> are binary64 numbers, so the arithmetic of the pipeline on
  small integers is evaluated by rewriting.\<close>

lemma rnd_numeral [simp]: "numeral k \<le> (2::real) ^ 53 \<Longrightarrow> rnd (numeral k) = Finite (numeral k)"
proof -
  assume "numeral k \<le> (2::real) ^ 53"
  then have "\<bar>numeral k :: int\<bar> \<le> 2 ^ 53"
    by (metis abs_numeral numeral_power_le_of_int_cancel_iff of_int_le_numeral_power_cancel_iff of_int_numeral)
  from rnd_of_int [OF this] show ?thesis by simp
qed

lemma rnd_neg_numeral [simp]:
  "numeral k \<le> (2::real) ^ 53 \<Longrightarrow> rnd (- numeral k) = Finite (- numeral k)"
proof -
  assume "numeral k \<le> (2::real) ^ 53"
  then have "\<bar>- numeral k :: int\<bar> \<le> 2 ^ 53"
    by (metis abs_minus_cancel abs_numeral of_int_le_numeral_power_cancel_iff of_int_numeral)
  from rnd_of_int [OF this] show ?thesis by simp
qed

lemma rnd_minus_1 [simp]: "rnd (- 1) = Finite (- 1)"
  using rnd_of_int [of "- 1"] by simp

lemmas pipeline_simps =
  rowEchelonForm_def reducedRowEchelonForm_def augmentedMatrix_def normalise_def
  eliminate_below_def eliminate_above_def eliminate_def js_read_def nonzero_def
  identifyPivotColumns_def pivot_scan_def findNullSpaceSolution_def nullSpaceVector_def
  findParticularSolution_def particularWrites_def js_assign_def
  upt_rec nth_Cons' Let_def


text \<open>The rounding of a quotient is evaluated from the definition.\<close>

lemma expo_numeral:
  "expo (numeral k) x =
     (if 2 \<le> x then expo (pred_numeral k) (x / 2) + 1
      else if x < 1 then expo (pred_numeral k) (2 * x) - 1
      else 0)"
  by (simp add: numeral_eq_Suc)

lemmas rnd_simps = rnd_def nearest_def quantum_def pow2_def round_even_def expo_numeral overflow_def

lemma rnd_overflow: "2 ^ 1024 \<le> \<bar>x\<bar> \<Longrightarrow> rnd x = overflow x"
  by (simp add: rnd_def)

text \<open>\<open>1 / 49\<close> is no binary64 number: the quotient \<^verbatim>\<open>1 / 49\<close> is rounded, the product of
  \<open>49\<close> with it is rounded to \<open>1 - 2 ^ -53\<close>, and the difference to \<open>1\<close> is \<open>2 ^ -53\<close>, not
  \<open>0\<close>.\<close>

lemma rnd_1_div_49: "rnd (1 / 49) = Finite (5882252574524729 / 288230376151711744)"
  by (simp add: rnd_simps)

lemma rnd_49_mul: "rnd (288230376151711721 / 288230376151711744)
   = Finite (9007199254740991 / 9007199254740992)"
  by (simp add: rnd_simps)

lemma rnd_residue: "rnd (1 / 9007199254740992) = Finite (1 / 9007199254740992)"
  using rnd_repr [of "1 / 9007199254740992" 1 "- 53"] by (simp add: pow2_def)

lemma rnd_quotient:
  "rnd (5882252574524729 / 288230376151711744) = Finite (5882252574524729 / 288230376151711744)"
  using rnd_1_div_49 by (rule representable_rnd [unfolded representable_def])

lemmas quotient_simps = rnd_1_div_49 rnd_49_mul rnd_residue rnd_quotient

text \<open>\<open>2 ^ 600\<close> is a binary64 number, and its square is not: the product overflows.\<close>

lemma rnd_pow600: "rnd (2 ^ 600) = Finite (2 ^ 600)"
  using rnd_repr [of "2 ^ 600" 1 600] by (simp add: pow2_def)

lemma rnd_neg_pow600: "rnd (- (2 ^ 600)) = Finite (- (2 ^ 600))"
  using rnd_repr [of "- (2 ^ 600)" "- 1" 600] by (simp add: pow2_def)

lemmas overflow_simps = rnd_pow600 [simplified] rnd_neg_pow600 [simplified] rnd_overflow overflow_def

section \<open>Shapes and counts in the pipeline\<close>

text \<open>Both passes keep the shape of the matrix, whatever its entries.\<close>

lemma ref_loop_rect: "rect n N \<Longrightarrow> ref_loop idxs N = Inr R \<Longrightarrow> rect n R"
proof (induction idxs arbitrary: N)
  case Nil
  then show ?case by simp
next
  case (Cons i rest)
  then show ?case
    by (auto split: option.splits simp: js_read_def intro: ref_step_rect split: if_splits)
qed

lemma rowEchelonForm_rect: "rect n matrix \<Longrightarrow> rowEchelonForm matrix = Inr R \<Longrightarrow> rect n R"
  by (auto simp: rowEchelonForm_def split: if_splits intro: ref_loop_rect)

lemma rref_loop_rect:
  "rect n M \<Longrightarrow> \<forall>i\<in>set idxs. i < length M \<Longrightarrow> rect n (rref_loop idxs M)"
proof (induction idxs arbitrary: M)
  case Nil
  then show ?case by simp
next
  case (Cons i rest)
  show ?case
  proof (cases "findIndex nonzero (M ! i)")
    case None
    then show ?thesis using Cons by simp
  next
    case (Some c)
    have "rect n (eliminate_above i c M)" using Cons.prems by (simp add: rect_eliminate_above)
    moreover have "\<forall>k\<in>set rest. k < length (eliminate_above i c M)" using Cons.prems by simp
    ultimately have "rect n (rref_loop rest (eliminate_above i c M))" by (rule Cons.IH)
    then show ?thesis using Some by simp
  qed
qed

lemma reducedRowEchelonForm_rect: "rect n M \<Longrightarrow> rect n (reducedRowEchelonForm M)"
  by (simp add: reducedRowEchelonForm_def rref_loop_rect)

text \<open>The number of vectors that \<open>findNullSpaceSolution\<close> builds: when no column occurs
  twice among the pivot columns and all of them are coefficient columns, it is one more
  than the number of free columns.\<close>

lemma findNullSpaceSolution_length:
  assumes "matrix \<noteq> []"
  shows "\<exists>vs. findNullSpaceSolution matrix = Inr vs \<and>
           length vs = length (matrix ! 0) - length (pivot_scan matrix)"
  using assms by (simp add: findNullSpaceSolution_def identifyPivotColumns_Inr)

lemma null_space_count:
  assumes ne: "N \<noteq> []" and rect: "rect (Suc nc) N" and red: "reduced N"
    and cols: "\<forall>r<length N. \<forall>c. findIndex nonzero (N ! r) = Some c \<longrightarrow> c < nc"
  shows "\<exists>cls vs. identifyPivotColumns N = Inr cls \<and> findNullSpaceSolution N = Inr vs \<and>
           length vs = length (nonPivotColumns cls) + 1"
proof -
  define ps where "ps = pivot_scan N"
  have n0: "length (N ! 0) = Suc nc" using ne rect by (simp add: rect_nth)
  have d: "distinct ps" unfolding ps_def using red by (rule reduced_distinct_pivots)
  have b: "\<forall>c\<in>set ps. c < nc" using cols by (auto simp: ps_def set_pivot_scan)
  have count: "length ps + length (filter (\<lambda>j. j \<notin> set ps) [0..<nc]) = nc"
    using d b by (rule complement_count)
  from findNullSpaceSolution_length [OF ne] obtain vs where
    vs: "findNullSpaceSolution N = Inr vs" "length vs = Suc nc - length ps"
    by (auto simp: n0 ps_def)
  have "identifyPivotColumns N
      = Inr \<lparr>pivotColumns = ps, nonPivotColumns = filter (\<lambda>j. j \<notin> set ps) [0..<nc]\<rparr>"
    using identifyPivotColumns_Inr [OF ne] by (simp add: n0 ps_def)
  moreover have "length vs = length (filter (\<lambda>j. j \<notin> set ps) [0..<nc]) + 1"
    using vs(2) count by simp
  ultimately show ?thesis using vs(1) by simp
qed

text \<open>The reduced matrix of the pipeline, for a system \<open>[A | b]\<close> of numbers whose reduced
  matrix has only finite entries.\<close>

lemma pipeline_augmented:
  assumes A: "A \<noteq> []" and rect: "rect nc A" and numA: "numbers A"
    and b: "length b = length A" and numb: "list_all is_number b"
  shows "\<exists>R. rowEchelonForm (augmentedMatrix A b) = Inr R \<and>
           length (reducedRowEchelonForm R) = length A \<and>
           rect (Suc nc) (reducedRowEchelonForm R) \<and>
           (finite_matrix (reducedRowEchelonForm R) \<longrightarrow> reduced (reducedRowEchelonForm R))"
proof -
  have ne: "augmentedMatrix A b \<noteq> []" using A by (simp add: augmentedMatrix_def)
  from rowEchelonForm_total [OF ne] obtain R where
    R: "rowEchelonForm (augmentedMatrix A b) = Inr R" and len: "length R = length A"
    by auto
  have rectM: "rect (Suc nc) (augmentedMatrix A b)" using rect by (rule rect_augmentedMatrix)
  have numM: "numbers (augmentedMatrix A b)" using numA numb b by (rule numbers_augmentedMatrix)
  have "rect (Suc nc) R" using rectM R by (rule rowEchelonForm_rect)
  then have "rect (Suc nc) (reducedRowEchelonForm R)" by (rule reducedRowEchelonForm_rect)
  moreover have "reduced (reducedRowEchelonForm R)" if "finite_matrix (reducedRowEchelonForm R)"
    using rectM numM R that by (rule pipeline_reduced(8))
  ultimately show ?thesis using R len by auto
qed

section \<open>The claims\<close>

text \<open>
  Claim C9. The else-branch of \<^verbatim>\<open>if (pivot != null)\<close> in \<^verbatim>\<open>rowEchelonForm\<close>, which throws
  "Division by zero", is never taken: whatever the matrix, \<open>rowEchelonForm\<close> does not
  return that error, because an index found by the pivot scan lies inside the row and the
  entry read there is a number other than \<open>0\<close> (never the missing value).
\<close>

theorem rowEchelonForm_pivot_never_null:
  "rowEchelonForm matrix \<noteq> Inl DivisionByZero \<and>
   (findIndex nonzero row = Some pivotIndex \<longrightarrow>
      (\<exists>pivot. js_read row pivotIndex = Some pivot \<and> pivot \<noteq> Finite 0))"
proof
  show "rowEchelonForm matrix \<noteq> Inl DivisionByZero"
    by (simp add: rowEchelonForm_def ref_loop_not_division_error)
  show "findIndex nonzero row = Some pivotIndex \<longrightarrow>
      (\<exists>pivot. js_read row pivotIndex = Some pivot \<and> pivot \<noteq> Finite 0)"
    by (auto simp: js_read_def dest: lead_SomeD)
qed

theorem rowEchelonForm_pivot_never_null_witness:
  "findIndex nonzero [Finite 0, Finite 2, Finite 4] = Some 1 \<and>
   (\<exists>pivot. js_read [Finite 0, Finite 2, Finite 4] 1 = Some pivot \<and> pivot \<noteq> Finite 0) \<and>
   rowEchelonForm [[Finite 0, Finite 2, Finite 4], [Finite 1, Finite 1, Finite 1]]
     \<noteq> Inl DivisionByZero"
proof -
  have h: "findIndex nonzero [Finite 0, Finite 2, Finite 4] = Some 1" by (simp add: nonzero_def)
  show ?thesis
    using h rowEchelonForm_pivot_never_null
      [of "[[Finite 0, Finite 2, Finite 4], [Finite 1, Finite 1, Finite 1]]"
          "[Finite 0, Finite 2, Finite 4]" 1]
    by blast
qed

text \<open>
  Claim C5, amended. On a rectangular matrix of numbers with at least one row
  \<open>rowEchelonForm\<close> returns a matrix \<open>R\<close> of the same shape, and the first \<open>t\<close> rows of \<open>R\<close>
  are what \<open>rowEchelonForm\<close> returns on the first \<open>t\<close> rows of the input alone. When no
  entry of \<open>R\<close> is \<^verbatim>\<open>Infinity\<close>, \<^verbatim>\<open>-Infinity\<close> or \<^verbatim>\<open>NaN\<close>, the first nonzero entry of every
  nonzero row of \<open>R\<close> is \<open>1\<close>, every row below a row with its first nonzero entry in column
  \<open>p\<close> is \<open>0\<close> in column \<open>p\<close>, and a row of the input that is entirely zero is the same zero
  row of \<open>R\<close>. Without that condition this fails: a product that overflows leaves a row
  whose first nonzero entry is \<^verbatim>\<open>NaN\<close>.
\<close>

theorem rowEchelonForm_echelon:
  assumes "matrix \<noteq> []" and "rect n matrix" and "numbers matrix"
  shows "\<exists>R. rowEchelonForm matrix = Inr R \<and> length R = length matrix \<and> rect n R \<and>
     (finite_matrix R \<longrightarrow>
        (\<forall>i<length R. \<forall>p. findIndex nonzero (R ! i) = Some p \<longrightarrow>
           R ! i ! p = Finite 1 \<and> (\<forall>j<length R. i < j \<longrightarrow> R ! j ! p = Finite 0)) \<and>
        (\<forall>i<length matrix. findIndex nonzero (matrix ! i) = None \<longrightarrow> R ! i = matrix ! i)) \<and>
     (\<forall>t. 0 < t \<and> t \<le> length matrix \<longrightarrow> rowEchelonForm (take t matrix) = Inr (take t R))"
proof -
  from rowEchelonForm_total [OF assms(1)] obtain R where
    R: "rowEchelonForm matrix = Inr R" and len: "length R = length matrix"
    by blast
  have rectR: "rect n R" using assms(2) R by (rule rowEchelonForm_rect)
  have shape: "(\<forall>i<length R. \<forall>p. findIndex nonzero (R ! i) = Some p \<longrightarrow>
           R ! i ! p = Finite 1 \<and> (\<forall>j<length R. i < j \<longrightarrow> R ! j ! p = Finite 0)) \<and>
        (\<forall>i<length matrix. findIndex nonzero (matrix ! i) = None \<longrightarrow> R ! i = matrix ! i)"
    if fin: "finite_matrix R"
  proof -
    note S = forward_pass_shape [OF assms(2) assms(3) R fin]
    show ?thesis using S(4) S(5) unfolding echelon_upto_def by blast
  qed
  have "\<forall>t. 0 < t \<and> t \<le> length matrix \<longrightarrow> rowEchelonForm (take t matrix) = Inr (take t R)"
    using rowEchelonForm_take [OF R] by blast
  then show ?thesis using R len rectR shape by blast
qed

theorem rowEchelonForm_echelon_witness:
  "rowEchelonForm (map (map Finite) [[0, 2, 4, 2], [0, 0, 0, 0], [1, 1, 1, 3], [2, 4, 5, 7]])
     = Inr (map (map Finite) [[0, 1, 2, 1], [0, 0, 0, 0], [1, 0, -1, 2], [0, 0, 1, 1]]) \<and>
   finite_matrix (map (map Finite) [[0, 1, 2, 1], [0, 0, 0, 0], [1, 0, -1, 2], [0, 0, 1, 1]]) \<and>
   findIndex nonzero (map Finite [0, 1, 2, 1]) = Some 1 \<and>
   map (map Finite) [[0, 1, 2, 1], [0, 0, 0, 0], [1, 0, -1, 2], [0, 0, 1, 1]] ! 3 ! 1 = Finite 0 \<and>
   rowEchelonForm (take 3 (map (map Finite) [[0, 2, 4, 2], [0, 0, 0, 0], [1, 1, 1, 3], [2, 4, 5, 7]]))
     = Inr (take 3 (map (map Finite) [[0, 1, 2, 1], [0, 0, 0, 0], [1, 0, -1, 2], [0, 0, 1, 1]]))"
proof -
  let ?M = "map (map Finite) [[0, 2, 4, 2], [0, 0, 0, 0], [1, 1, 1, 3], [2, 4, 5, 7]]"
  let ?E = "map (map Finite) [[0, 1, 2, 1], [0, 0, 0, 0], [1, 0, -1, 2], [0, 0, 1, 1]]"
  have h: "?M \<noteq> []" "rect 4 ?M" "numbers ?M"
    by (simp_all add: rect_def numbers_def representable_def)
  have e: "rowEchelonForm ?M = Inr ?E" by (simp add: pipeline_simps)
  have f: "finite_matrix ?E" by (simp add: finite_matrix_def)
  have l: "findIndex nonzero (?E ! 0) = Some 1" by (simp add: nonzero_def)
  from rowEchelonForm_echelon [OF h] obtain R where R: "rowEchelonForm ?M = Inr R"
    and S: "finite_matrix R \<longrightarrow>
        (\<forall>i<length R. \<forall>p. findIndex nonzero (R ! i) = Some p \<longrightarrow>
           R ! i ! p = Finite 1 \<and> (\<forall>j<length R. i < j \<longrightarrow> R ! j ! p = Finite 0))"
    and T: "\<forall>t. 0 < t \<and> t \<le> length ?M \<longrightarrow> rowEchelonForm (take t ?M) = Inr (take t R)"
    by blast
  have RE: "R = ?E" using R e by simp
  have "(0::nat) < 3 \<and> 3 \<le> length ?M" by simp
  then have t: "rowEchelonForm (take 3 ?M) = Inr (take 3 ?E)" using T RE by blast
  have "(0::nat) < length ?E" "(3::nat) < length ?E" "(0::nat) < 3" by simp_all
  then have "?E ! 3 ! 1 = Finite 0" using S f l unfolding RE by blast
  then show ?thesis using e f l t by simp
qed

theorem rowEchelonForm_echelon_counterexample:
  "rowEchelonForm [[Finite 1, Finite (2 ^ 600)], [Finite (2 ^ 600), Finite 1]]
     = Inr [[Finite 1, Finite (2 ^ 600)], [Finite 0, NaN]] \<and>
   findIndex nonzero [Finite 0, NaN] = Some 1 \<and>
   [Finite 0, NaN] ! 1 \<noteq> Finite 1"
  by (simp add: pipeline_simps overflow_simps)

text \<open>
  Claim C4, amended. When \<open>R\<close> is what \<open>rowEchelonForm\<close> returns on a rectangular matrix of
  numbers, \<open>reducedRowEchelonForm R\<close> has the shape of \<open>R\<close>, and when none of its entries is
  \<^verbatim>\<open>Infinity\<close>, \<^verbatim>\<open>-Infinity\<close> or \<^verbatim>\<open>NaN\<close>, then for every row with a first nonzero entry the
  column of that entry holds \<open>1\<close> in that row and \<open>0\<close> in every other row. Without that
  condition this fails: after an overflow the column of a first nonzero entry holds
  \<^verbatim>\<open>NaN\<close>.
\<close>

theorem reducedRowEchelonForm_pivot_columns:
  assumes "rect n matrix" and "numbers matrix" and "rowEchelonForm matrix = Inr R"
  shows "length (reducedRowEchelonForm R) = length R \<and> rect n (reducedRowEchelonForm R) \<and>
     (finite_matrix (reducedRowEchelonForm R) \<longrightarrow>
        (\<forall>i<length R. \<forall>c. findIndex nonzero (reducedRowEchelonForm R ! i) = Some c \<longrightarrow>
           reducedRowEchelonForm R ! i ! c = Finite 1 \<and>
           (\<forall>j<length R. j \<noteq> i \<longrightarrow> reducedRowEchelonForm R ! j ! c = Finite 0)))"
proof -
  have "rect n R" using assms(1) assms(3) by (rule rowEchelonForm_rect)
  then have rectN: "rect n (reducedRowEchelonForm R)" by (rule reducedRowEchelonForm_rect)
  have "\<forall>i<length R. \<forall>c. findIndex nonzero (reducedRowEchelonForm R ! i) = Some c \<longrightarrow>
           reducedRowEchelonForm R ! i ! c = Finite 1 \<and>
           (\<forall>j<length R. j \<noteq> i \<longrightarrow> reducedRowEchelonForm R ! j ! c = Finite 0)"
    if fin: "finite_matrix (reducedRowEchelonForm R)"
  proof -
    have "reduced (reducedRowEchelonForm R)"
      using assms fin by (rule pipeline_reduced(8))
    then show ?thesis unfolding reduced_def by simp
  qed
  then show ?thesis using rectN by simp
qed

theorem reducedRowEchelonForm_pivot_columns_witness:
  "rect 4 (map (map Finite) [[1, 1, 1, 3], [2, 1, 1, 4]]) \<and>
   rowEchelonForm (map (map Finite) [[1, 1, 1, 3], [2, 1, 1, 4]])
     = Inr (map (map Finite) [[1, 1, 1, 3], [0, 1, 1, 2]]) \<and>
   reducedRowEchelonForm (map (map Finite) [[1, 1, 1, 3], [0, 1, 1, 2]])
     = map (map Finite) [[1, 0, 0, 1], [0, 1, 1, 2]] \<and>
   finite_matrix (map (map Finite) [[1, 0, 0, 1], [0, 1, 1, 2]]) \<and>
   findIndex nonzero (map (map Finite) [[1, 0, 0, 1], [0, 1, 1, 2]] ! 1) = Some 1 \<and>
   reducedRowEchelonForm (map (map Finite) [[1, 1, 1, 3], [0, 1, 1, 2]]) ! 1 ! 1 = Finite 1 \<and>
   reducedRowEchelonForm (map (map Finite) [[1, 1, 1, 3], [0, 1, 1, 2]]) ! 0 ! 1 = Finite 0"
proof -
  let ?M = "map (map Finite) [[1, 1, 1, 3], [2, 1, 1, 4]]"
  let ?R = "map (map Finite) [[1, 1, 1, 3], [0, 1, 1, 2]]"
  let ?N = "map (map Finite) [[1, 0, 0, 1], [0, 1, 1, 2]]"
  have h: "rect 4 ?M" "numbers ?M" by (simp_all add: rect_def numbers_def representable_def)
  have e: "rowEchelonForm ?M = Inr ?R" by (simp add: pipeline_simps)
  have r: "reducedRowEchelonForm ?R = ?N" by (simp add: pipeline_simps)
  have f: "finite_matrix ?N" by (simp add: finite_matrix_def)
  have l: "findIndex nonzero (?N ! 1) = Some 1" by (simp add: nonzero_def)
  from reducedRowEchelonForm_pivot_columns [OF h e] f
  have "\<forall>i<length ?R. \<forall>c. findIndex nonzero (?N ! i) = Some c \<longrightarrow>
        ?N ! i ! c = Finite 1 \<and> (\<forall>j<length ?R. j \<noteq> i \<longrightarrow> ?N ! j ! c = Finite 0)"
    unfolding r by blast
  moreover have "(1::nat) < length ?R" "(0::nat) < length ?R" "(0::nat) \<noteq> 1" by simp_all
  ultimately have "?N ! 1 ! 1 = Finite 1 \<and> ?N ! 0 ! 1 = Finite 0"
    using l by blast
  then show ?thesis using h e f l unfolding r by blast
qed

theorem reducedRowEchelonForm_pivot_columns_counterexample:
  "rect 2 [[Finite 1, Finite (2 ^ 600)], [Finite (2 ^ 600), Finite 1]] \<and>
   rowEchelonForm [[Finite 1, Finite (2 ^ 600)], [Finite (2 ^ 600), Finite 1]]
     = Inr [[Finite 1, Finite (2 ^ 600)], [Finite 0, NaN]] \<and>
   reducedRowEchelonForm [[Finite 1, Finite (2 ^ 600)], [Finite 0, NaN]]
     = [[Finite 1, NaN], [Finite 0, NaN]] \<and>
   findIndex nonzero ([[Finite 1, NaN], [Finite 0, NaN]] ! 1) = Some 1 \<and>
   [[Finite 1, NaN], [Finite 0, NaN]] ! 1 ! 1 \<noteq> Finite 1 \<and>
   [[Finite 1, NaN], [Finite 0, NaN]] ! 0 ! 1 \<noteq> Finite 0"
  by (simp add: pipeline_simps overflow_simps rect_def)

text \<open>
  Claim C8, amended. Applying \<open>reducedRowEchelonForm\<close> twice gives the same matrix as
  applying it once whenever its argument \<open>R\<close> is what \<open>rowEchelonForm\<close> returns on a
  rectangular matrix of numbers (the input the function is documented for) and no entry
  of \<open>reducedRowEchelonForm R\<close> is \<^verbatim>\<open>Infinity\<close>, \<^verbatim>\<open>-Infinity\<close> or \<^verbatim>\<open>NaN\<close>. For a matrix whose
  first nonzero entries are not \<open>1\<close> the second pass changes the result of the first.
\<close>

theorem reducedRowEchelonForm_idempotent:
  assumes "rect n matrix" and "numbers matrix" and "rowEchelonForm matrix = Inr R"
    and "finite_matrix (reducedRowEchelonForm R)"
  shows "reducedRowEchelonForm (reducedRowEchelonForm R) = reducedRowEchelonForm R"
proof -
  note P = pipeline_reduced [OF assms]
  show ?thesis using P(6) P(9) P(7) assms(4) by (rule rref_fixed)
qed

theorem reducedRowEchelonForm_idempotent_witness:
  "rect 3 (map (map Finite) [[2, 4, 6], [1, 3, 5]]) \<and>
   rowEchelonForm (map (map Finite) [[2, 4, 6], [1, 3, 5]])
     = Inr (map (map Finite) [[1, 2, 3], [0, 1, 2]]) \<and>
   reducedRowEchelonForm (map (map Finite) [[1, 2, 3], [0, 1, 2]])
     = map (map Finite) [[1, 0, -1], [0, 1, 2]] \<and>
   reducedRowEchelonForm (reducedRowEchelonForm (map (map Finite) [[1, 2, 3], [0, 1, 2]]))
     = map (map Finite) [[1, 0, -1], [0, 1, 2]]"
proof -
  let ?M = "map (map Finite) [[2, 4, 6], [1, 3, 5]]"
  let ?R = "map (map Finite) [[1, 2, 3], [0, 1, 2]]"
  have h: "rect 3 ?M" "numbers ?M" by (simp_all add: rect_def numbers_def representable_def)
  have e: "rowEchelonForm ?M = Inr ?R" by (simp add: pipeline_simps)
  have r: "reducedRowEchelonForm ?R = map (map Finite) [[1, 0, -1], [0, 1, 2]]"
    by (simp add: pipeline_simps)
  have f: "finite_matrix (reducedRowEchelonForm ?R)" unfolding r by (simp add: finite_matrix_def)
  from reducedRowEchelonForm_idempotent [OF h e f] show ?thesis using h e r by simp
qed

theorem reducedRowEchelonForm_idempotent_counterexample:
  "reducedRowEchelonForm [[Finite 1], [Finite 2]] = [[Finite (- 1)], [Finite 2]] \<and>
   reducedRowEchelonForm (reducedRowEchelonForm [[Finite 1], [Finite 2]])
     = [[Finite 1], [Finite 2]] \<and>
   reducedRowEchelonForm (reducedRowEchelonForm [[Finite 1], [Finite 2]])
     \<noteq> reducedRowEchelonForm [[Finite 1], [Finite 2]]"
proof -
  have a: "reducedRowEchelonForm [[Finite 1], [Finite 2]] = [[Finite (- 1)], [Finite 2]]"
    by (simp add: pipeline_simps)
  have b: "reducedRowEchelonForm [[Finite (- 1)], [Finite 2]] = [[Finite 1], [Finite 2]]"
    by (simp add: pipeline_simps)
  show ?thesis unfolding a b by simp
qed




text \<open>
  Claim C10. If every nonzero row has its first nonzero entry in a coefficient column (an
  index below \<open>numCols - 1\<close>), then every write \<^verbatim>\<open>particularSolution[pivotColumn] = ...\<close> of
  \<open>findParticularSolution\<close> stays inside the vector of length \<open>numCols - 1\<close> (the function
  never reads that vector), and the vector is returned with that length when the matrix
  has a row and a column. Without the precondition this fails: for a row \<open>[0, ..., 0, c]\<close>
  with \<open>c \<noteq> 0\<close> the loop writes at index \<open>numCols - 1\<close>, one past the end, and the returned
  array is longer than \<open>numCols - 1\<close>.
\<close>

theorem findParticularSolution_write_bounds:
  "((\<forall>row\<in>set matrix. \<forall>c. findIndex nonzero row = Some c \<longrightarrow> c < length (matrix ! 0) - 1) \<longrightarrow>
      (\<forall>(i, v)\<in>set (particularWrites matrix). i < length (matrix ! 0) - 1) \<and>
      (matrix \<noteq> [] \<and> 0 < length (matrix ! 0) \<longrightarrow>
         (\<exists>p. findParticularSolution matrix = Inr p \<and> length p = length (matrix ! 0) - 1)))
   \<and> (other \<noteq> [] \<and> 0 < length (other ! 0) \<and> c \<noteq> Finite 0 \<and>
      replicate (length (other ! 0) - 1) (Finite 0) @ [c] \<in> set other \<longrightarrow>
      (length (other ! 0) - 1, c) \<in> set (particularWrites other) \<and>
      (\<exists>p. findParticularSolution other = Inr p \<and> length (other ! 0) - 1 < length p))"
proof (intro conjI impI)
  assume a: "\<forall>row\<in>set matrix. \<forall>c. findIndex nonzero row = Some c \<longrightarrow> c < length (matrix ! 0) - 1"
  have inb: "i < length (matrix ! 0) - 1" if "(i, v) \<in> set (particularWrites matrix)" for i v
  proof -
    from that obtain r where "r < length matrix" "findIndex nonzero (matrix ! r) = Some i"
      using particularWrites_iff by blast
    then show ?thesis using a nth_mem by blast
  qed
  then show "\<forall>(i, v)\<in>set (particularWrites matrix). i < length (matrix ! 0) - 1" by auto
  then have w: "\<forall>(i, v)\<in>set (particularWrites matrix).
      i < length (replicate (length (matrix ! 0) - 1) (Finite 0))" by simp
  assume "matrix \<noteq> [] \<and> 0 < length (matrix ! 0)"
  then show "\<exists>p. findParticularSolution matrix = Inr p \<and> length p = length (matrix ! 0) - 1"
    using fold_assign [OF w] by (simp add: findParticularSolution_def)
next
  assume b: "other \<noteq> [] \<and> 0 < length (other ! 0) \<and> c \<noteq> Finite 0 \<and>
      replicate (length (other ! 0) - 1) (Finite 0) @ [c] \<in> set other"
  define k where "k = length (other ! 0) - 1"
  from b obtain r where r: "r < length other" "other ! r = replicate k (Finite 0) @ [c]"
    unfolding k_def by (metis in_set_conv_nth)
  have "findIndex nonzero (other ! r) = Some k" "other ! r ! k = c"
    using b r(2) by (simp_all add: lead_replicate nth_append)
  then show w: "(length (other ! 0) - 1, c) \<in> set (particularWrites other)"
    using r(1) particularWrites_iff [of k c other] by (auto simp: k_def)
  show "\<exists>p. findParticularSolution other = Inr p \<and> length (other ! 0) - 1 < length p"
    using b fold_assign_length_write [OF w] by (simp add: findParticularSolution_def)
qed

theorem findParticularSolution_write_bounds_witness:
  "particularWrites (map (map Finite) [[1, 0, 0, 1], [0, 1, 1, 2]])
     = [(0, Finite 1), (1, Finite 2)] \<and>
   findParticularSolution (map (map Finite) [[1, 0, 0, 1], [0, 1, 1, 2]])
     = Inr (map Finite [1, 2, 0]) \<and>
   particularWrites (map (map Finite) [[1, 1, 0], [0, 0, 1]]) = [(0, Finite 0), (2, Finite 1)] \<and>
   findParticularSolution (map (map Finite) [[1, 1, 0], [0, 0, 1]])
     = Inr (map Finite [0, 0, 1]) \<and>
   (\<exists>p. findParticularSolution (map (map Finite) [[1, 0, 0, 1], [0, 1, 1, 2]]) = Inr p \<and>
        length p = 3) \<and>
   (\<exists>p. findParticularSolution (map (map Finite) [[1, 1, 0], [0, 0, 1]]) = Inr p \<and>
        2 < length p)"
proof -
  let ?M = "map (map Finite) [[1, 0, 0, 1], [0, 1, 1, 2]]"
  let ?O = "map (map Finite) [[1, 1, 0], [0, 0, 1]]"
  have h1: "\<forall>row\<in>set ?M. \<forall>c. findIndex nonzero row = Some c \<longrightarrow> c < length (?M ! 0) - 1"
    by (simp add: nonzero_def)
  have h1': "?M \<noteq> [] \<and> 0 < length (?M ! 0)" by simp
  have h2: "?O \<noteq> [] \<and> 0 < length (?O ! 0) \<and> Finite 1 \<noteq> Finite 0 \<and>
      replicate (length (?O ! 0) - 1) (Finite 0) @ [Finite 1] \<in> set ?O"
    by (simp add: numeral_2_eq_2)
  have e: "particularWrites ?M = [(0, Finite 1), (1, Finite 2)]"
    "findParticularSolution ?M = Inr (map Finite [1, 2, 0])"
    "particularWrites ?O = [(0, Finite 0), (2, Finite 1)]"
    "findParticularSolution ?O = Inr (map Finite [0, 0, 1])"
    by (simp_all add: pipeline_simps)
  from findParticularSolution_write_bounds [of ?M ?O "Finite 1"] h1 h1' h2
  have "(\<exists>p. findParticularSolution ?M = Inr p \<and> length p = length (?M ! 0) - 1) \<and>
        (\<exists>p. findParticularSolution ?O = Inr p \<and> length (?O ! 0) - 1 < length p)"
    by blast
  then show ?thesis using e by simp
qed

text \<open>
  Claim C6, amended. For every augmented matrix with at least one row,
  \<open>identifyPivotColumns\<close> returns \<open>pivotColumns\<close> and \<open>nonPivotColumns\<close> that are disjoint,
  and \<open>nonPivotColumns\<close> lists in ascending order exactly the coefficient column indices
  \<open>0, ..., lastColumn - 1\<close> that are not in \<open>pivotColumns\<close>. The union of the two is the
  coefficient column range when every entry of \<open>pivotColumns\<close> is a coefficient column, and
  \<open>|pivotColumns| + |nonPivotColumns|\<close> is the number of coefficient columns when moreover
  no column occurs twice in \<open>pivotColumns\<close>. Both hold for the reduced matrix that the
  pipeline computes for \<open>[A | b]\<close> whenever that matrix has finite entries only and no row
  of it has its first nonzero entry in the augmented column.
\<close>

theorem identifyPivotColumns_partition:
  "(augmented \<noteq> [] \<longrightarrow>
      (\<exists>cls. identifyPivotColumns augmented = Inr cls \<and>
         set (pivotColumns cls) \<inter> set (nonPivotColumns cls) = {} \<and>
         set (nonPivotColumns cls) = {0..<length (augmented ! 0) - 1} - set (pivotColumns cls) \<and>
         sorted (nonPivotColumns cls) \<and> distinct (nonPivotColumns cls) \<and>
         ((\<forall>c\<in>set (pivotColumns cls). c < length (augmented ! 0) - 1) \<longrightarrow>
            set (pivotColumns cls) \<union> set (nonPivotColumns cls)
              = {0..<length (augmented ! 0) - 1}) \<and>
         ((\<forall>c\<in>set (pivotColumns cls). c < length (augmented ! 0) - 1) \<and>
          distinct (pivotColumns cls) \<longrightarrow>
            length (pivotColumns cls) + length (nonPivotColumns cls)
              = length (augmented ! 0) - 1)))
   \<and> (A \<noteq> [] \<and> rect nc A \<and> numbers A \<and> length b = length A \<and> list_all is_number b \<longrightarrow>
      (\<exists>R cls. rowEchelonForm (augmentedMatrix A b) = Inr R \<and>
         identifyPivotColumns (reducedRowEchelonForm R) = Inr cls \<and>
         set (pivotColumns cls) \<inter> set (nonPivotColumns cls) = {} \<and>
         (finite_matrix (reducedRowEchelonForm R) \<and>
          (\<forall>r<length A. \<forall>c. findIndex nonzero (reducedRowEchelonForm R ! r) = Some c
             \<longrightarrow> c < nc) \<longrightarrow>
            set (pivotColumns cls) \<union> set (nonPivotColumns cls) = {0..<nc} \<and>
            length (pivotColumns cls) + length (nonPivotColumns cls) = nc)))"
proof (intro conjI impI)
  assume ne: "augmented \<noteq> []"
  define m where "m = length (augmented ! 0) - 1"
  define ps where "ps = pivot_scan augmented"
  define cls where "cls = \<lparr>pivotColumns = ps, nonPivotColumns = filter (\<lambda>j. j \<notin> set ps) [0..<m]\<rparr>"
  have run: "identifyPivotColumns augmented = Inr cls"
    using identifyPivotColumns_Inr [OF ne] by (simp add: cls_def ps_def m_def)
  have 1: "set (pivotColumns cls) \<inter> set (nonPivotColumns cls) = {}"
    by (auto simp: cls_def)
  have 2: "set (nonPivotColumns cls) = {0..<m} - set (pivotColumns cls)"
    by (auto simp: cls_def)
  have 3: "sorted (nonPivotColumns cls) \<and> distinct (nonPivotColumns cls)"
    by (simp add: cls_def sorted_wrt_filter)
  have 4: "set (pivotColumns cls) \<union> set (nonPivotColumns cls) = {0..<m}"
    if "\<forall>c\<in>set (pivotColumns cls). c < m"
    using that 2 by auto
  have 5: "length (pivotColumns cls) + length (nonPivotColumns cls) = m"
    if "(\<forall>c\<in>set (pivotColumns cls). c < m) \<and> distinct (pivotColumns cls)"
    using that complement_count [of ps m] by (simp add: cls_def)
  show "\<exists>cls. identifyPivotColumns augmented = Inr cls \<and>
         set (pivotColumns cls) \<inter> set (nonPivotColumns cls) = {} \<and>
         set (nonPivotColumns cls) = {0..<length (augmented ! 0) - 1} - set (pivotColumns cls) \<and>
         sorted (nonPivotColumns cls) \<and> distinct (nonPivotColumns cls) \<and>
         ((\<forall>c\<in>set (pivotColumns cls). c < length (augmented ! 0) - 1) \<longrightarrow>
            set (pivotColumns cls) \<union> set (nonPivotColumns cls)
              = {0..<length (augmented ! 0) - 1}) \<and>
         ((\<forall>c\<in>set (pivotColumns cls). c < length (augmented ! 0) - 1) \<and>
          distinct (pivotColumns cls) \<longrightarrow>
            length (pivotColumns cls) + length (nonPivotColumns cls)
              = length (augmented ! 0) - 1)"
    unfolding m_def [symmetric] using run 1 2 3 4 5 by blast
next
  assume a: "A \<noteq> [] \<and> rect nc A \<and> numbers A \<and> length b = length A \<and> list_all is_number b"
  from pipeline_augmented [of A nc b] a obtain R where
    R: "rowEchelonForm (augmentedMatrix A b) = Inr R" and
    len: "length (reducedRowEchelonForm R) = length A" and
    rectN: "rect (Suc nc) (reducedRowEchelonForm R)" and
    red: "finite_matrix (reducedRowEchelonForm R) \<longrightarrow> reduced (reducedRowEchelonForm R)"
    by blast
  define N where "N = reducedRowEchelonForm R"
  define ps where "ps = pivot_scan N"
  define cls where "cls = \<lparr>pivotColumns = ps, nonPivotColumns = filter (\<lambda>j. j \<notin> set ps) [0..<nc]\<rparr>"
  have lenN: "length N = length A" using len by (simp add: N_def)
  have ne: "N \<noteq> []" using lenN a by auto
  have rectN': "rect (Suc nc) N" using rectN by (simp add: N_def)
  have "0 < length N" using ne by simp
  with rectN' have "length (N ! 0) = Suc nc" by (rule rect_nth)
  then have run: "identifyPivotColumns N = Inr cls"
    using identifyPivotColumns_Inr [OF ne] by (simp add: cls_def ps_def)
  have disj: "set (pivotColumns cls) \<inter> set (nonPivotColumns cls) = {}"
    by (auto simp: cls_def)
  have "set (pivotColumns cls) \<union> set (nonPivotColumns cls) = {0..<nc} \<and>
        length (pivotColumns cls) + length (nonPivotColumns cls) = nc"
    if h: "finite_matrix N \<and> (\<forall>r<length A. \<forall>c. findIndex nonzero (N ! r) = Some c \<longrightarrow> c < nc)"
  proof -
    have "reduced N" using red h by (simp add: N_def)
    then have d: "distinct ps" unfolding ps_def by (rule reduced_distinct_pivots)
    have b: "\<forall>c\<in>set ps. c < nc"
      using h lenN by (auto simp: ps_def set_pivot_scan)
    have "set (pivotColumns cls) \<union> set (nonPivotColumns cls) = {0..<nc}"
      using b by (auto simp: cls_def)
    moreover have "length (pivotColumns cls) + length (nonPivotColumns cls) = nc"
      using complement_count [OF d b] by (simp add: cls_def)
    ultimately show ?thesis by simp
  qed
  then show "\<exists>R cls. rowEchelonForm (augmentedMatrix A b) = Inr R \<and>
         identifyPivotColumns (reducedRowEchelonForm R) = Inr cls \<and>
         set (pivotColumns cls) \<inter> set (nonPivotColumns cls) = {} \<and>
         (finite_matrix (reducedRowEchelonForm R) \<and>
          (\<forall>r<length A. \<forall>c. findIndex nonzero (reducedRowEchelonForm R ! r) = Some c
             \<longrightarrow> c < nc) \<longrightarrow>
            set (pivotColumns cls) \<union> set (nonPivotColumns cls) = {0..<nc} \<and>
            length (pivotColumns cls) + length (nonPivotColumns cls) = nc)"
    using R run disj unfolding N_def by blast
qed

theorem identifyPivotColumns_partition_witness:
  "identifyPivotColumns (map (map Finite) [[1, 0, 0, 1], [0, 1, 1, 2]])
     = Inr \<lparr>pivotColumns = [0, 1], nonPivotColumns = [2]\<rparr> \<and>
   rowEchelonForm (augmentedMatrix (map (map Finite) [[1, 1, 1], [2, 1, 1]]) (map Finite [3, 4]))
     = Inr (map (map Finite) [[1, 1, 1, 3], [0, 1, 1, 2]]) \<and>
   reducedRowEchelonForm (map (map Finite) [[1, 1, 1, 3], [0, 1, 1, 2]])
     = map (map Finite) [[1, 0, 0, 1], [0, 1, 1, 2]] \<and>
   finite_matrix (map (map Finite) [[1, 0, 0, 1], [0, 1, 1, 2]]) \<and>
   (\<exists>cls. identifyPivotColumns (map (map Finite) [[1, 0, 0, 1], [0, 1, 1, 2]]) = Inr cls \<and>
      set (pivotColumns cls) \<union> set (nonPivotColumns cls) = {0..<3} \<and>
      length (pivotColumns cls) + length (nonPivotColumns cls) = 3)"
proof -
  let ?A = "map (map Finite) [[1, 1, 1], [2, 1, 1]]"
  let ?b = "map Finite [3, 4]"
  let ?R = "map (map Finite) [[1, 1, 1, 3], [0, 1, 1, 2]]"
  let ?N = "map (map Finite) [[1, 0, 0, 1], [0, 1, 1, 2]]"
  have h: "?A \<noteq> [] \<and> rect 3 ?A \<and> numbers ?A \<and> length ?b = length ?A \<and> list_all is_number ?b"
    by (simp add: rect_def numbers_def representable_def)
  have e: "rowEchelonForm (augmentedMatrix ?A ?b) = Inr ?R" by (simp add: pipeline_simps)
  have r: "reducedRowEchelonForm ?R = ?N" by (simp add: pipeline_simps)
  have i: "identifyPivotColumns ?N = Inr \<lparr>pivotColumns = [0, 1], nonPivotColumns = [2]\<rparr>"
    by (simp add: pipeline_simps)
  have f: "finite_matrix ?N" by (simp add: finite_matrix_def)
  have c: "\<forall>r<length ?A. \<forall>c. findIndex nonzero (?N ! r) = Some c \<longrightarrow> c < 3"
    by (simp add: nonzero_def less_Suc_eq numeral_2_eq_2)
  from identifyPivotColumns_partition [of ?N ?A 3 ?b] h
  obtain R cls where R: "rowEchelonForm (augmentedMatrix ?A ?b) = Inr R" and
    cls: "identifyPivotColumns (reducedRowEchelonForm R) = Inr cls" and
    P: "finite_matrix (reducedRowEchelonForm R) \<and>
          (\<forall>r<length ?A. \<forall>c. findIndex nonzero (reducedRowEchelonForm R ! r) = Some c
             \<longrightarrow> c < 3) \<longrightarrow>
            set (pivotColumns cls) \<union> set (nonPivotColumns cls) = {0..<3} \<and>
            length (pivotColumns cls) + length (nonPivotColumns cls) = 3"
    by blast
  have RR: "reducedRowEchelonForm R = ?N" using R e r by simp
  have "set (pivotColumns cls) \<union> set (nonPivotColumns cls) = {0..<3} \<and>
      length (pivotColumns cls) + length (nonPivotColumns cls) = 3"
    using P f c unfolding RR by blast
  then have "\<exists>cls. identifyPivotColumns ?N = Inr cls \<and>
      set (pivotColumns cls) \<union> set (nonPivotColumns cls) = {0..<3} \<and>
      length (pivotColumns cls) + length (nonPivotColumns cls) = 3"
    using cls unfolding RR by blast
  then show ?thesis using e r i f by blast
qed

theorem identifyPivotColumns_partition_counterexample:
  "rowEchelonForm (augmentedMatrix (map (map Finite) [[1, 1], [2, 2]]) (map Finite [3, 7]))
     = Inr (map (map Finite) [[1, 1, 3], [0, 0, 1]]) \<and>
   reducedRowEchelonForm (map (map Finite) [[1, 1, 3], [0, 0, 1]])
     = map (map Finite) [[1, 1, 0], [0, 0, 1]] \<and>
   identifyPivotColumns (map (map Finite) [[1, 1, 0], [0, 0, 1]])
     = Inr \<lparr>pivotColumns = [0, 2], nonPivotColumns = [1]\<rparr> \<and>
   set [0, 2] \<union> set [1] \<noteq> {0..<length (map (map Finite) [[1, 1, 0], [0, 0, 1]] ! 0) - 1} \<and>
   length [0, 2 :: nat] + length [1 :: nat]
     \<noteq> length (map (map Finite) [[1, 1, 0], [0, 0, 1]] ! 0) - 1"
proof -
  have e: "rowEchelonForm (augmentedMatrix (map (map Finite) [[1, 1], [2, 2]]) (map Finite [3, 7]))
     = Inr (map (map Finite) [[1, 1, 3], [0, 0, 1]])"
    by (simp add: pipeline_simps)
  have r: "reducedRowEchelonForm (map (map Finite) [[1, 1, 3], [0, 0, 1]])
     = map (map Finite) [[1, 1, 0], [0, 0, 1]]"
    by (simp add: pipeline_simps)
  have i: "identifyPivotColumns (map (map Finite) [[1, 1, 0], [0, 0, 1]])
     = Inr \<lparr>pivotColumns = [0, 2], nonPivotColumns = [1]\<rparr>"
    by (simp add: pipeline_simps)
  have "(2::nat) \<in> set [0, 2] \<union> set [1]" by simp
  moreover have "(2::nat) \<notin> {0..<length (map (map Finite) [[1, 1, 0], [0, 0, 1]] ! 0) - 1}"
    by simp
  ultimately have u: "set [0, 2] \<union> set [1]
      \<noteq> {0..<length (map (map Finite) [[1, 1, 0], [0, 0, 1]] ! 0) - 1}"
    by metis
  show ?thesis using e r i u by simp
qed

text \<open>
  Claim C7, amended. A row that is entirely zero, its last (augmented) entry included,
  contributes no entry to \<open>pivotColumns\<close>, and \<open>identifyPivotColumns\<close> signals no error for
  it. A row \<open>0 ... 0 | c\<close> with \<open>c \<noteq> 0\<close> raises no error either, but it does contribute an
  entry: the index of the augmented column, at the row's place in \<open>pivotColumns\<close>.
\<close>

theorem identifyPivotColumns_zero_coefficients:
  "\<exists>cls. identifyPivotColumns (rows1 @ (replicate k (Finite 0) @ [c]) # rows2) = Inr cls \<and>
     pivotColumns cls = pivot_scan rows1 @ (if c = Finite 0 then [] else [k]) @ pivot_scan rows2"
proof -
  have "replicate k (Finite 0) @ [Finite 0] = replicate (Suc k) (Finite 0)"
    by (simp add: replicate_append_same)
  then have "findIndex nonzero (replicate k (Finite 0) @ [c])
      = (if c = Finite 0 then None else Some k)"
    using lead_replicate [of c k] lead_replicate_zero [of "Suc k"] by simp
  then have "pivot_scan (rows1 @ (replicate k (Finite 0) @ [c]) # rows2)
      = pivot_scan rows1 @ (if c = Finite 0 then [] else [k]) @ pivot_scan rows2"
    by (simp add: pivot_scan_append pivot_scan_Cons)
  then show ?thesis by (simp add: identifyPivotColumns_Inr)
qed

theorem identifyPivotColumns_zero_coefficients_counterexample:
  "identifyPivotColumns (map (map Finite) [[1, 2, 3], [0, 0, 5]])
     = Inr \<lparr>pivotColumns = [0, 2], nonPivotColumns = [1]\<rparr> \<and>
   identifyPivotColumns (map (map Finite) [[1, 2, 3]])
     = Inr \<lparr>pivotColumns = [0], nonPivotColumns = [1]\<rparr>"
  by (simp add: pipeline_simps)

text \<open>
  Claim C1 (not met by the code). For \<open>A = [[1, 0], [0, 1]]\<close> and \<open>b = [3, 4]\<close> the pipeline
  reaches the reduced matrix \<open>[[1, 0, 3], [0, 1, 4]]\<close>, which has no free column, and
  \<open>findNullSpaceSolution\<close> returns the one vector \<open>[-3, -4, 1]\<close>: it has three entries for
  two unknowns, and the product of \<open>A\<close> with it (with its first two entries) is
  \<open>[-3, -4]\<close>, not the zero vector.
\<close>

theorem findNullSpaceSolution_full_rank:
  "rowEchelonForm (augmentedMatrix (map (map Finite) [[1, 0], [0, 1]]) (map Finite [3, 4]))
     = Inr (map (map Finite) [[1, 0, 3], [0, 1, 4]]) \<and>
   reducedRowEchelonForm (map (map Finite) [[1, 0, 3], [0, 1, 4]])
     = map (map Finite) [[1, 0, 3], [0, 1, 4]] \<and>
   findNullSpaceSolution (map (map Finite) [[1, 0, 3], [0, 1, 4]])
     = Inr (map (map Finite) [[-3, -4, 1]]) \<and>
   mat_vec [[1, 0], [0, 1]] [-3, -4, 1] = [-3, -4] \<and>
   mat_vec [[1, 0], [0, 1]] [-3, -4] = [-3, -4]"
proof -
  have "rowEchelonForm (augmentedMatrix (map (map Finite) [[1, 0], [0, 1]]) (map Finite [3, 4]))
     = Inr (map (map Finite) [[1, 0, 3], [0, 1, 4]])"
    by (simp add: pipeline_simps)
  moreover have "reducedRowEchelonForm (map (map Finite) [[1, 0, 3], [0, 1, 4]])
     = map (map Finite) [[1, 0, 3], [0, 1, 4]]"
    by (simp add: pipeline_simps)
  moreover have "findNullSpaceSolution (map (map Finite) [[1, 0, 3], [0, 1, 4]])
     = Inr (map (map Finite) [[-3, -4, 1]])"
    by (simp add: pipeline_simps)
  moreover have "mat_vec [[1, 0], [0, 1]] [-3, -4, 1] = [-3, -4]"
    "mat_vec [[1, 0], [0, 1]] [-3, -4] = [-3, -4]"
    by (simp_all add: mat_vec_def dot_def)
  ultimately show ?thesis by simp
qed

text \<open>
  Claim C3 (not met by the code). For \<open>A = [[1, 1, 1], [2, 1, 1]]\<close> and \<open>b = [3, 4]\<close> the
  reduced matrix is \<open>[[1, 0, 0, 1], [0, 1, 1, 2]]\<close>; its only free column is column \<open>2\<close>, yet
  \<open>findNullSpaceSolution\<close> returns two vectors. The second one, \<open>[-1, -2, 0, 1]\<close>, belongs to
  the augmented column: it has four entries and its \<open>1\<close> sits at position \<open>3\<close>. With the
  pivot in column \<open>1\<close> instead of column \<open>0\<close>, as in \<open>[[0, 1, 0]]\<close>, the vector returned for
  the free column \<open>0\<close> is \<open>[0, -1]\<close> and has no \<open>1\<close> at position \<open>0\<close>. The surplus vector is
  no accident of the example: by \<open>null_space_count\<close> the function returns one vector more
  than there are free columns for every reduced matrix whose first nonzero entries all
  lie in coefficient columns.
\<close>

theorem findNullSpaceSolution_extra_vector:
  "rowEchelonForm (augmentedMatrix (map (map Finite) [[1, 1, 1], [2, 1, 1]]) (map Finite [3, 4]))
     = Inr (map (map Finite) [[1, 1, 1, 3], [0, 1, 1, 2]]) \<and>
   reducedRowEchelonForm (map (map Finite) [[1, 1, 1, 3], [0, 1, 1, 2]])
     = map (map Finite) [[1, 0, 0, 1], [0, 1, 1, 2]] \<and>
   identifyPivotColumns (map (map Finite) [[1, 0, 0, 1], [0, 1, 1, 2]])
     = Inr \<lparr>pivotColumns = [0, 1], nonPivotColumns = [2]\<rparr> \<and>
   findNullSpaceSolution (map (map Finite) [[1, 0, 0, 1], [0, 1, 1, 2]])
     = Inr (map (map Finite) [[0, -1, 1], [-1, -2, 0, 1]]) \<and>
   identifyPivotColumns (map (map Finite) [[0, 1, 0]])
     = Inr \<lparr>pivotColumns = [1], nonPivotColumns = [0]\<rparr> \<and>
   findNullSpaceSolution (map (map Finite) [[0, 1, 0]])
     = Inr (map (map Finite) [[0, -1], [0, 0, 1]])"
proof -
  have "rowEchelonForm (augmentedMatrix (map (map Finite) [[1, 1, 1], [2, 1, 1]])
       (map Finite [3, 4]))
     = Inr (map (map Finite) [[1, 1, 1, 3], [0, 1, 1, 2]])"
    by (simp add: pipeline_simps)
  moreover have "reducedRowEchelonForm (map (map Finite) [[1, 1, 1, 3], [0, 1, 1, 2]])
     = map (map Finite) [[1, 0, 0, 1], [0, 1, 1, 2]]"
    by (simp add: pipeline_simps)
  moreover have "identifyPivotColumns (map (map Finite) [[1, 0, 0, 1], [0, 1, 1, 2]])
     = Inr \<lparr>pivotColumns = [0, 1], nonPivotColumns = [2]\<rparr>"
    by (simp add: pipeline_simps)
  moreover have "findNullSpaceSolution (map (map Finite) [[1, 0, 0, 1], [0, 1, 1, 2]])
     = Inr (map (map Finite) [[0, -1, 1], [-1, -2, 0, 1]])"
    by (simp add: pipeline_simps)
  moreover have "identifyPivotColumns (map (map Finite) [[0, 1, 0]])
     = Inr \<lparr>pivotColumns = [1], nonPivotColumns = [0]\<rparr>"
    by (simp add: pipeline_simps)
  moreover have "findNullSpaceSolution (map (map Finite) [[0, 1, 0]])
     = Inr (map (map Finite) [[0, -1], [0, 0, 1]])"
    by (simp add: pipeline_simps)
  ultimately show ?thesis by simp
qed

end
